theory Spec2Isabelle
  imports Main "HOL-Library.Word" "HOL-Library.Sublist" "HOL-Library.AList"
begin

section \<open>Data model\<close>

text \<open>
  Go's \<^verbatim>\<open>error\<close> values, one constructor per origin. The four sentinel errors of package
  \<^verbatim>\<open>pod\<close> are constants; every other error is tagged with the library call that
  produced it and carries its message.
\<close>

datatype error =
    ErrArchiveEmpty
  | ErrNoEntry
  | ErrReservedName
  | ErrPodExists
  | HttpErr string
  | UrlErr string
  | OsErr string
  | ZipErr string
  | CopyErr string
  | FeedErr string
  | ConfigErr string
  | UsageErr string

text \<open>\<^verbatim>\<open>type Podcast struct { FeedURL, Name, LocalStore string }\<close>\<close>

record Podcast =
  FeedURL :: string
  Name :: string
  LocalStore :: string

text \<open>
  Modelled from the spec: the declaration of \<^verbatim>\<open>Episode\<close> is not among the source files.
  The fields are those the code reads and writes (\<^verbatim>\<open>e.Title\<close>, \<^verbatim>\<open>e.File.URL\<close>,
  \<^verbatim>\<open>e.File.Size\<close>, \<^verbatim>\<open>e.Bytes\<close>); the two sizes are \<^verbatim>\<open>int64\<close>.
\<close>

record Enclosure =
  URL :: string
  Size :: "64 word"

record Episode =
  Title :: string
  File :: Enclosure
  Bytes :: "64 word"

definition ReservedPodName :: string where
  "ReservedPodName = ''all''"

definition feedFileName :: string where
  "feedFileName = ''feed.zip''"

section \<open>Library functions the code calls\<close>

subsection \<open>strings and path/filepath (Unix)\<close>

definition IsPathSeparator :: "char \<Rightarrow> bool" where
  "IsPathSeparator c = (c = CHR ''/'')"

text \<open>
  \<^verbatim>\<open>filepath.Ext\<close> scans from the end of the path: it stops with the empty string at a
  separator and returns the suffix starting at the first dot it meets. \<open>ext_scan\<close> walks
  the reversed path and collects what it has passed.
\<close>

fun ext_scan :: "string \<Rightarrow> string \<Rightarrow> string" where
  "ext_scan [] acc = []"
| "ext_scan (c # cs) acc =
     (if IsPathSeparator c then []
      else if c = CHR ''.'' then c # acc
      else ext_scan cs (c # acc))"

definition Ext :: "string \<Rightarrow> string" where
  "Ext path = ext_scan (rev path) []"

definition HasSuffix :: "string \<Rightarrow> string \<Rightarrow> bool" where
  "HasSuffix s suf = (length suf \<le> length s \<and> drop (length s - length suf) s = suf)"

definition TrimSuffix :: "string \<Rightarrow> string \<Rightarrow> string" where
  "TrimSuffix s suf = (if HasSuffix s suf then take (length s - length suf) s else s)"

text \<open>Splitting a path at every separator; the pieces may be empty.\<close>

fun split_path :: "string \<Rightarrow> string list" where
  "split_path [] = [[]]"
| "split_path (c # cs) =
     (if IsPathSeparator c then [] # split_path cs
      else (case split_path cs of
              [] \<Rightarrow> [[c]]
            | x # xs \<Rightarrow> (c # x) # xs))"

text \<open>
  One step of \<^verbatim>\<open>filepath.Clean\<close>, on a stack of the elements kept so far (top first):
  empty elements and \<^verbatim>\<open>.\<close> are dropped, \<^verbatim>\<open>..\<close> removes the element before it, is dropped
  at the root and is kept at the start of a relative path.
\<close>

definition clean_elem :: "bool \<Rightarrow> string list \<Rightarrow> string \<Rightarrow> string list" where
  "clean_elem rooted stack c =
     (if c = [] \<or> c = ''.'' then stack
      else if c = ''..'' then
        (case stack of
           [] \<Rightarrow> (if rooted then [] else [c])
         | t # ts \<Rightarrow> (if t = ''..'' then c # stack else ts))
      else c # stack)"

type_synonym node = "bool \<times> string list"

definition path_elems :: "string \<Rightarrow> node" where
  "path_elems p =
     (let rooted = (case p of [] \<Rightarrow> False | c # _ \<Rightarrow> IsPathSeparator c)
      in (rooted, rev (foldl (clean_elem rooted) [] (split_path p))))"

fun join_elems :: "string list \<Rightarrow> string" where
  "join_elems [] = []"
| "join_elems [x] = x"
| "join_elems (x # y # ys) = x @ ''/'' @ join_elems (y # ys)"

definition Clean :: "string \<Rightarrow> string" where
  "Clean p =
     (case path_elems p of (rooted, es) \<Rightarrow>
        (let s = (if rooted then ''/'' else []) @ join_elems es
         in if s = [] then ''.'' else s))"

text \<open>\<^verbatim>\<open>filepath.Join\<close> of two elements: empty elements are ignored, the result is cleaned.\<close>

definition Join :: "string \<Rightarrow> string \<Rightarrow> string" where
  "Join a b =
     (if a = [] then (if b = [] then [] else Clean b)
      else if b = [] then Clean a
      else Clean (a @ ''/'' @ b))"

subsection \<open>The world: file system and observable output\<close>

text \<open>
  What the program does to the outside is recorded in the world: the directories and
  files of the file system (keyed by the cleaned elements of their path) and the
  sequence of requests, printed lines and prompts.
\<close>

datatype event =
    HttpGet string
  | Print string
  | Prompt string

record world =
  dirs :: "node list"
  files :: "(node \<times> string) list"
  trace :: "event list"

definition parent :: "node \<Rightarrow> node" where
  "parent n = (fst n, butlast (snd n))"

definition emit :: "event \<Rightarrow> world \<Rightarrow> world" where
  "emit ev w = w\<lparr>trace := trace w @ [ev]\<rparr>"

text \<open>
  \<^verbatim>\<open>os.OpenFile(name, os.O_RDONLY, _)\<close>: succeeds on any existing directory or file and
  yields a handle on it.
\<close>

definition os_OpenFile :: "string \<Rightarrow> world \<Rightarrow> error + node" where
  "os_OpenFile name w =
     (if name = [] then Inl (OsErr ''no such file or directory'')
      else (let n = path_elems name
            in if n \<in> set (dirs w) \<or> n \<in> fst ` set (files w) then Inr n
               else Inl (OsErr ''no such file or directory'')))"

text \<open>\<^verbatim>\<open>f.Readdirnames(0)\<close>: the names of all entries of the directory, in directory order.\<close>

definition Readdirnames :: "node \<Rightarrow> world \<Rightarrow> error + string list" where
  "Readdirnames d w =
     (if d \<in> set (dirs w)
      then Inr (map (\<lambda>n. last (snd n))
                  (filter (\<lambda>n. snd n \<noteq> [] \<and> parent n = d) (map fst (files w) @ dirs w)))
      else Inl (OsErr ''not a directory''))"

text \<open>\<^verbatim>\<open>os.Create\<close>: creates the file or truncates it; the directory must exist.\<close>

definition os_Create :: "string \<Rightarrow> world \<Rightarrow> error + (node \<times> world)" where
  "os_Create name w =
     (if name = [] then Inl (OsErr ''no such file or directory'')
      else (let n = path_elems name
            in if n \<in> set (dirs w) then Inl (OsErr ''is a directory'')
               else if parent n \<notin> set (dirs w) then Inl (OsErr ''no such file or directory'')
               else Inr (n, w\<lparr>files := AList.update n [] (files w)\<rparr>)))"

definition write_file :: "node \<Rightarrow> string \<Rightarrow> world \<Rightarrow> world" where
  "write_file n bytes w = w\<lparr>files := AList.update n bytes (files w)\<rparr>"

definition read_file :: "string \<Rightarrow> world \<Rightarrow> error + string" where
  "read_file name w =
     (if name = [] then Inl (OsErr ''no such file or directory'')
      else (case map_of (files w) (path_elems name) of
              None \<Rightarrow> Inl (OsErr ''no such file or directory'')
            | Some bytes \<Rightarrow> Inr bytes))"

text \<open>
  \<^verbatim>\<open>os.MkdirAll\<close>: creates the directory and every missing parent; fails when a file is
  in the way.
\<close>

definition os_MkdirAll :: "string \<Rightarrow> world \<Rightarrow> error + world" where
  "os_MkdirAll name w =
     (if name = [] then Inl (OsErr ''no such file or directory'')
      else (case path_elems name of (rooted, es) \<Rightarrow>
        (let chain = map (\<lambda>pre. (rooted, pre)) (tl (prefixes es))
         in if \<exists>n \<in> set chain. n \<in> fst ` set (files w) then Inl (OsErr ''not a directory'')
            else Inr (w\<lparr>dirs := dirs w @ filter (\<lambda>n. n \<notin> set (dirs w)) chain\<rparr>))))"

subsection \<open>Network, archive format, feed format, terminal\<close>

text \<open>
  \<^verbatim>\<open>http.Get\<close> either fails (no response) or returns a response with a status code and a
  body; reading the body yields its bytes and may end in an error instead of end of file.
\<close>

record response =
  StatusCode :: nat
  Body :: string
  BodyErr :: "string option"

record parsed_url =
  url_String :: string
  url_Path :: string

record zfile =
  zname :: string
  zopen :: "error + string"

type_synonym podptr = nat

text \<open>
  Everything the code takes from outside its two source files is a parameter:
  the network, \<^verbatim>\<open>url.Parse\<close>, the archive format (reading an archive, and the bytes the
  archive writer leaves in the file for one entry, finished or cut short), the feed
  parser \<^verbatim>\<open>parseFeed\<close>, \<^verbatim>\<open>humanized\<close>, the user's answer in \<^verbatim>\<open>waitApproval\<close>, the
  registry read by \<^verbatim>\<open>readPods\<close> (by number of the call) and the order in which each
  \<^verbatim>\<open>range\<close> loop visits the keys of a Go map (by loop).
\<close>

record env =
  net :: "string \<Rightarrow> error + response"
  url_Parse :: "string \<Rightarrow> error + parsed_url"
  zip_read :: "string \<Rightarrow> error + zfile list"
  zip_Create :: "string \<Rightarrow> error option"
  zip_bytes :: "string \<Rightarrow> string \<Rightarrow> string"
  zip_partial :: "string \<Rightarrow> string \<Rightarrow> string"
  zip_Close :: "string \<Rightarrow> string \<Rightarrow> error option"
  parseFeed :: "string \<Rightarrow> error + Episode list"
  humanized :: "64 word \<Rightarrow> string"
  waitApproval :: "string \<Rightarrow> bool"
  readPods :: "nat \<Rightarrow> error + (string \<times> podptr) list"
  deref :: "podptr \<Rightarrow> Podcast"
  map_order :: "nat \<Rightarrow> podptr list \<Rightarrow> podptr list"

definition http_Get :: "env \<Rightarrow> string \<Rightarrow> world \<Rightarrow> (error + response) \<times> world" where
  "http_Get env u w = (net env u, emit (HttpGet u) w)"

definition zip_OpenReader :: "env \<Rightarrow> string \<Rightarrow> world \<Rightarrow> error + zfile list" where
  "zip_OpenReader env name w =
     (case read_file name w of
        Inl e \<Rightarrow> Inl e
      | Inr bytes \<Rightarrow> zip_read env bytes)"

section \<open>Package pod\<close>

definition feedFile :: "Podcast \<Rightarrow> string" where
  "feedFile pod = Join (LocalStore pod) feedFileName"

text \<open>A Go \<^verbatim>\<open>map[string]bool\<close>; reading a missing key gives \<^verbatim>\<open>false\<close>.\<close>

type_synonym strset = "string \<rightharpoonup> bool"

definition index :: "strset \<Rightarrow> string \<Rightarrow> bool" where
  "index m k = (case m k of None \<Rightarrow> False | Some b \<Rightarrow> b)"

text \<open>The loop of \<^verbatim>\<open>readStore\<close> over the directory's names.\<close>

fun readStore_loop :: "string list \<Rightarrow> strset \<Rightarrow> strset" where
  "readStore_loop [] stored = stored"
| "readStore_loop (e # content) stored =
     (if e = feedFileName then readStore_loop content stored
      else readStore_loop content (stored(TrimSuffix e (Ext e) \<mapsto> True)))"

definition readStore :: "Podcast \<Rightarrow> world \<Rightarrow> error + strset" where
  "readStore pod w =
     (case os_OpenFile (LocalStore pod) w of
        Inl e \<Rightarrow> Inl e
      | Inr dir \<Rightarrow>
          (case Readdirnames dir w of
             Inl e \<Rightarrow> Inl e
           | Inr content \<Rightarrow> Inr (readStore_loop content Map.empty)))"

text \<open>The loop of \<^verbatim>\<open>NewEpisodes\<close> over the episodes of the feed, appending to \<^verbatim>\<open>newEpis\<close>.\<close>

fun newEpis_loop :: "strset \<Rightarrow> Episode list \<Rightarrow> Episode list \<Rightarrow> Episode list" where
  "newEpis_loop stored [] newEpis = newEpis"
| "newEpis_loop stored (e # feedEpis) newEpis =
     (if \<not> index stored (Title e) then newEpis_loop stored feedEpis (newEpis @ [e])
      else newEpis_loop stored feedEpis newEpis)"

definition NewEpisodes :: "env \<Rightarrow> Podcast \<Rightarrow> world \<Rightarrow> error + Episode list" where
  "NewEpisodes env pod w =
     (case readStore pod w of
        Inl e \<Rightarrow> Inl e
      | Inr stored \<Rightarrow>
          (case zip_OpenReader env (feedFile pod) w of
             Inl e \<Rightarrow> Inl e
           | Inr arc \<Rightarrow>
               (if length arc < 1 then Inl ErrArchiveEmpty
                else
                  (case zopen (arc ! 0) of
                     Inl e \<Rightarrow> Inl e
                   | Inr feed \<Rightarrow>
                       (case parseFeed env feed of
                          Inl e \<Rightarrow> Inl e
                        | Inr feedEpis \<Rightarrow> Inr (newEpis_loop stored feedEpis []))))))"

text \<open>\<^verbatim>\<open>storeExists\<close> ensures that the storage directory is present.\<close>

definition storeExists :: "Podcast \<Rightarrow> world \<Rightarrow> error option \<times> world" where
  "storeExists pod w =
     (case os_MkdirAll (LocalStore pod) w of
        Inl err \<Rightarrow> (Some err, w)
      | Inr w' \<Rightarrow> (None, w'))"

text \<open>
  \<^verbatim>\<open>refreshFeed\<close>: request the feed, make sure the directory is there, create the snapshot
  file and write the body into it as the single entry of an archive. The status code of
  the response is not read anywhere.
\<close>

definition refreshFeed :: "env \<Rightarrow> Podcast \<Rightarrow> world \<Rightarrow> error option \<times> world" where
  "refreshFeed env pod w =
     (case http_Get env (FeedURL pod) w of
        (Inl err, w1) \<Rightarrow> (Some err, w1)
      | (Inr resp, w1) \<Rightarrow>
          (case storeExists pod w1 of
             (Some err, w2) \<Rightarrow> (Some err, w2)
           | (None, w2) \<Rightarrow>
               (case os_Create (feedFile pod) w2 of
                  Inl err \<Rightarrow> (Some err, w2)
                | Inr (f, w3) \<Rightarrow>
                    (case zip_Create env (Name pod) of
                       Some err \<Rightarrow> (Some err, w3)
                     | None \<Rightarrow>
                         (case BodyErr resp of
                            Some m \<Rightarrow>
                              (Some (CopyErr m),
                               write_file f (zip_partial env (Name pod) (Body resp)) w3)
                          | None \<Rightarrow>
                              (case zip_Close env (Name pod) (Body resp) of
                                 Some err \<Rightarrow>
                                   (Some err,
                                    write_file f (zip_partial env (Name pod) (Body resp)) w3)
                               | None \<Rightarrow>
                                   (None,
                                    write_file f (zip_bytes env (Name pod) (Body resp)) w3)))))))"

text \<open>
  \<^verbatim>\<open>download\<close>: parse the URL, request it, create \<^verbatim>\<open>dir/<title><ext>\<close> and copy the body
  into it; \<^verbatim>\<open>e.Bytes = n\<close> is the last statement before \<^verbatim>\<open>return nil\<close>. The episode is
  returned with the world, since the code writes through the pointer.
\<close>

definition download :: "env \<Rightarrow> Episode \<Rightarrow> string \<Rightarrow> world \<Rightarrow> error option \<times> Episode \<times> world" where
  "download env e dir w =
     (case url_Parse env (URL (File e)) of
        Inl err \<Rightarrow> (Some err, e, w)
      | Inr u \<Rightarrow>
          (case http_Get env (url_String u) w of
             (Inl err, w1) \<Rightarrow> (Some err, e, w1)
           | (Inr resp, w1) \<Rightarrow>
               (let ext = Ext (url_Path u)
                in case os_Create (Join dir (Title e @ ext)) w1 of
                     Inl err \<Rightarrow> (Some err, e, w1)
                   | Inr (f, w2) \<Rightarrow>
                       (case BodyErr resp of
                          Some m \<Rightarrow> (Some (CopyErr m), e, write_file f (Body resp) w2)
                        | None \<Rightarrow>
                            (None,
                             e\<lparr>Bytes := of_nat (length (Body resp))\<rparr>,
                             write_file f (Body resp) w2)))))"

fun DownloadEpisodes ::
  "env \<Rightarrow> Podcast \<Rightarrow> Episode list \<Rightarrow> world \<Rightarrow> error option \<times> Episode list \<times> world" where
  "DownloadEpisodes env pod [] w = (None, [], w)"
| "DownloadEpisodes env pod (e # eps) w =
     (case download env e (LocalStore pod) w of
        (Some err, e', w') \<Rightarrow> (Some err, e' # eps, w')
      | (None, e', w') \<Rightarrow>
          (case DownloadEpisodes env pod eps w' of
             (r, eps', w'') \<Rightarrow> (r, e' # eps', w'')))"

text \<open>
  \<^verbatim>\<open>List\<close> and \<^verbatim>\<open>Get\<close> read the registry with \<^verbatim>\<open>readPods\<close>, which is not among the source
  files; \<open>k\<close> is the number of calls of \<^verbatim>\<open>readPods\<close> made before. A \<^verbatim>\<open>range\<close> over a Go
  map visits every key once, in an order the runtime chooses: \<open>range_order\<close> takes the
  order from the environment when it is a rearrangement of the keys.
\<close>

definition range_order :: "env \<Rightarrow> nat \<Rightarrow> podptr list \<Rightarrow> podptr list" where
  "range_order env site ks =
     (let ord = map_order env site ks in if sort ord = sort ks then ord else ks)"

definition List :: "env \<Rightarrow> nat \<Rightarrow> error + podptr list" where
  "List env k =
     (case readPods env k of
        Inl err \<Rightarrow> Inl err
      | Inr pods \<Rightarrow> Inr (range_order env 0 (map snd (AList.clearjunk pods))))"

definition Get :: "env \<Rightarrow> nat \<Rightarrow> string \<Rightarrow> error + podptr" where
  "Get env k name =
     (case readPods env k of
        Inl err \<Rightarrow> Inl err
      | Inr pods \<Rightarrow>
          (case map_of pods name of
             None \<Rightarrow> Inl ErrNoEntry
           | Some pod \<Rightarrow> Inr pod))"

section \<open>Package cmd: update\<close>

type_synonym epmap = "(podptr \<times> Episode list) list"

definition nl :: string where
  "nl = [CHR 0x0A]"

fun show_nat :: "nat \<Rightarrow> string" where
  "show_nat n =
     (if n < 10 then [''0123456789'' ! n]
      else show_nat (n div 10) @ [''0123456789'' ! (n mod 10)])"

declare show_nat.simps [simp del]

definition eps_of :: "epmap \<Rightarrow> podptr \<Rightarrow> Episode list" where
  "eps_of newEps p = (case map_of newEps p of None \<Rightarrow> [] | Some eps \<Rightarrow> eps)"

text \<open>First loop of \<^verbatim>\<open>updatePods\<close>: \<^verbatim>\<open>newEps[p] = eps\<close> for every podcast, stopping at an error.\<close>

fun collect_loop :: "env \<Rightarrow> podptr list \<Rightarrow> epmap \<Rightarrow> world \<Rightarrow> error + epmap" where
  "collect_loop env [] newEps w = Inr newEps"
| "collect_loop env (p # pods) newEps w =
     (case NewEpisodes env (deref env p) w of
        Inl err \<Rightarrow> Inl err
      | Inr eps \<Rightarrow> collect_loop env pods (AList.update p eps newEps) w)"

text \<open>Second loop: the name of each podcast and the titles of its new episodes.\<close>

fun print_titles :: "Episode list \<Rightarrow> world \<Rightarrow> world" where
  "print_titles [] w = w"
| "print_titles (e # eps) w = print_titles eps (emit (Print (Title e @ nl)) w)"

fun print_loop :: "env \<Rightarrow> epmap \<Rightarrow> podptr list \<Rightarrow> world \<Rightarrow> world" where
  "print_loop env newEps [] w = w"
| "print_loop env newEps (p # ps) w =
     print_loop env newEps ps
       (print_titles (eps_of newEps p)
          (emit (Print (Name (deref env p) @ '':'' @ nl @ ''------------------'' @ nl)) w))"

text \<open>Third loop: \<^verbatim>\<open>numEps\<close> and \<^verbatim>\<open>totalBytes\<close> (an \<^verbatim>\<open>int64\<close>, which wraps).\<close>

fun sum_sizes :: "Episode list \<Rightarrow> 64 word \<Rightarrow> 64 word" where
  "sum_sizes [] totalBytes = totalBytes"
| "sum_sizes (e # eps) totalBytes = sum_sizes eps (totalBytes + Size (File e))"

fun count_loop :: "epmap \<Rightarrow> podptr list \<Rightarrow> nat \<times> 64 word \<Rightarrow> nat \<times> 64 word" where
  "count_loop newEps [] acc = acc"
| "count_loop newEps (p # ps) (numEps, totalBytes) =
     count_loop newEps ps
       (numEps + length (eps_of newEps p), sum_sizes (eps_of newEps p) totalBytes)"

text \<open>The prompt is shown and the user's answer comes back.\<close>

definition ask :: "env \<Rightarrow> string \<Rightarrow> world \<Rightarrow> bool \<times> world" where
  "ask env msg w = (waitApproval env msg, emit (Prompt msg) w)"

text \<open>Last loop: every podcast's episodes are downloaded, stopping at an error.\<close>

fun download_loop :: "env \<Rightarrow> epmap \<Rightarrow> podptr list \<Rightarrow> world \<Rightarrow> error option \<times> world" where
  "download_loop env newEps [] w = (None, w)"
| "download_loop env newEps (p # ps) w =
     (case DownloadEpisodes env (deref env p) (eps_of newEps p) w of
        (Some err, _, w') \<Rightarrow> (Some err, w')
      | (None, _, w') \<Rightarrow> download_loop env newEps ps w')"

definition prompt_msg :: "env \<Rightarrow> nat \<Rightarrow> 64 word \<Rightarrow> string" where
  "prompt_msg env numEps totalBytes =
     nl @ ''Download '' @ show_nat numEps @ '' episodes for '' @ humanized env totalBytes @ ''?''"

definition updatePods :: "env \<Rightarrow> podptr list \<Rightarrow> world \<Rightarrow> error option \<times> world" where
  "updatePods env pods w =
     (case collect_loop env pods [] w of
        Inl err \<Rightarrow> (Some err, w)
      | Inr newEps \<Rightarrow>
          (if length newEps = 0
           then (None, emit (Print (''No new episodes. Nothing to do.'' @ nl)) w)
           else
             (let keys = map fst newEps;
                  w1 = print_loop env newEps (range_order env 1 keys) w;
                  (numEps, totalBytes) = count_loop newEps (range_order env 2 keys) (0, 0);
                  msg = prompt_msg env numEps totalBytes
              in case ask env msg w1 of
                   (True, w2) \<Rightarrow> download_loop env newEps (range_order env 3 keys) w2
                 | (False, w2) \<Rightarrow> (None, w2))))"

text \<open>
  The loop of \<^verbatim>\<open>RunE\<close> over the arguments; \<open>pods\<close> are the podcasts looked up so far and
  \<open>k\<close> counts the registry reads.
\<close>

fun RunE_loop :: "env \<Rightarrow> string list \<Rightarrow> podptr list \<Rightarrow> nat \<Rightarrow> world \<Rightarrow> error option \<times> world" where
  "RunE_loop env [] pods k w = updatePods env pods w"
| "RunE_loop env (arg # args) pods k w =
     (if arg = ReservedPodName then
        (case List env k of
           Inl err \<Rightarrow> (Some err, w)
         | Inr all \<Rightarrow> updatePods env all w)
      else
        (case Get env k arg of
           Inl err \<Rightarrow> (Some err, w)
         | Inr p \<Rightarrow> RunE_loop env args (pods @ [p]) (Suc k) w))"

text \<open>\<^verbatim>\<open>Args: cobra.MinimumNArgs(1)\<close> rejects an empty argument list before \<^verbatim>\<open>RunE\<close> runs.\<close>

definition updateCmd :: "env \<Rightarrow> string list \<Rightarrow> world \<Rightarrow> error option \<times> world" where
  "updateCmd env args w =
     (if length args < 1 then (Some (UsageErr ''requires at least 1 arg(s)''), w)
      else RunE_loop env args [] 0 w)"

section \<open>Properties: vocabulary\<close>

text \<open>
  The local index as a set: the keys of \<^verbatim>\<open>stored\<close> that read as \<^verbatim>\<open>true\<close>.
\<close>

definition LocalIndex :: "strset \<Rightarrow> string set" where
  "LocalIndex stored = {k. index stored k}"

text \<open>
  The URLs requested, in order, in a sequence of events; the files that exist.
\<close>

definition requests :: "event list \<Rightarrow> string list" where
  "requests tr = concat (map (\<lambda>ev. case ev of HttpGet u \<Rightarrow> [u] | _ \<Rightarrow> []) tr)"

definition on_disk :: "world \<Rightarrow> node set" where
  "on_disk w = fst ` set (files w)"

text \<open>
  The downloader run over a flat list of episodes with their directories, one after the
  other, stopping at the first error: what the claims call podcast-then-episode order is
  \<open>batch_order\<close>, every episode of the first podcast, then every episode of the next.
\<close>

fun run_downloads :: "env \<Rightarrow> (Episode \<times> string) list \<Rightarrow> world \<Rightarrow> error option \<times> world" where
  "run_downloads env [] w = (None, w)"
| "run_downloads env ((e, dir) # rest) w =
     (case download env e dir w of
        (Some err, _, w') \<Rightarrow> (Some err, w')
      | (None, _, w') \<Rightarrow> run_downloads env rest w')"

definition batch_order :: "env \<Rightarrow> epmap \<Rightarrow> podptr list \<Rightarrow> (Episode \<times> string) list" where
  "batch_order env newEps order =
     concat (map (\<lambda>p. map (\<lambda>e. (e, LocalStore (deref env p))) (eps_of newEps p)) order)"

text \<open>
  The diff of one podcast, the URL that \<^verbatim>\<open>download\<close> requests for an episode and the file
  it writes, and the two parts of \<^verbatim>\<open>updatePods\<close> before the downloads: the message of the
  prompt and the world once the titles are printed and the prompt is shown.
\<close>

definition diff_of :: "env \<Rightarrow> world \<Rightarrow> podptr \<Rightarrow> Episode list" where
  "diff_of env w p = (case NewEpisodes env (deref env p) w of Inl _ \<Rightarrow> [] | Inr eps \<Rightarrow> eps)"

definition media_url :: "env \<Rightarrow> Episode \<Rightarrow> string" where
  "media_url env e = (case url_Parse env (URL (File e)) of Inl _ \<Rightarrow> [] | Inr u \<Rightarrow> url_String u)"

definition target :: "env \<Rightarrow> Episode \<Rightarrow> string \<Rightarrow> node option" where
  "target env e dir =
     (case url_Parse env (URL (File e)) of
        Inl _ \<Rightarrow> None
      | Inr u \<Rightarrow> Some (path_elems (Join dir (Title e @ Ext (url_Path u)))))"

definition summary_msg :: "env \<Rightarrow> epmap \<Rightarrow> string" where
  "summary_msg env newEps =
     (case count_loop newEps (range_order env 2 (map fst newEps)) (0, 0) of
        (numEps, totalBytes) \<Rightarrow> prompt_msg env numEps totalBytes)"

definition announced :: "env \<Rightarrow> epmap \<Rightarrow> world \<Rightarrow> world" where
  "announced env newEps w =
     emit (Prompt (summary_msg env newEps))
       (print_loop env newEps (range_order env 1 (map fst newEps)) w)"

text \<open>
  A plain file name is one path element: not empty, not \<^verbatim>\<open>.\<close> or \<^verbatim>\<open>..\<close>, without a
  separator. A stack of elements is clean when \<^verbatim>\<open>filepath.Clean\<close> has nothing left to do
  on it: no empty element, no \<^verbatim>\<open>.\<close>, and \<^verbatim>\<open>..\<close> only at the bottom of a relative path.
  A file system is well formed when every file lies in a directory that exists.
\<close>

definition plain_name :: "string \<Rightarrow> bool" where
  "plain_name n \<longleftrightarrow> n \<noteq> [] \<and> n \<noteq> ''.'' \<and> n \<noteq> ''..'' \<and> CHR ''/'' \<notin> set n"

definition clean_stack :: "bool \<Rightarrow> string list \<Rightarrow> bool" where
  "clean_stack rooted st \<longleftrightarrow>
     (\<forall>c \<in> set st. c \<noteq> [] \<and> c \<noteq> ''.'' \<and> CHR ''/'' \<notin> set c) \<and>
     (\<exists>k plain. st = plain @ replicate k ''..'' \<and> ''..'' \<notin> set plain \<and> (rooted \<longrightarrow> k = 0))"

definition fs_wf :: "world \<Rightarrow> bool" where
  "fs_wf w \<longleftrightarrow> (\<forall>n \<in> fst ` set (files w). parent n \<in> set (dirs w))"

section \<open>Example scenario\<close>

text \<open>
  One podcast \<^verbatim>\<open>show\<close> stored under \<^verbatim>\<open>/pods/show\<close>, a second one whose directory is
  missing, a toy archive format (\<^verbatim>\<open>ZIP\<close> followed by the document) and a toy feed
  format (the documents \<^verbatim>\<open>F3\<close>, \<^verbatim>\<open>F4\<close>, \<^verbatim>\<open>FX\<close>, \<^verbatim>\<open>FV\<close>). The server answers 200 under
  \<^verbatim>\<open>/media\<close>, 404 under \<^verbatim>\<open>/gone\<close> and refuses the connection elsewhere.
\<close>

definition pod0 :: Podcast where
  "pod0 = \<lparr>FeedURL = ''http://example.org/feed.xml'', Name = ''show'', LocalStore = ''/pods/show''\<rparr>"

definition pod1 :: Podcast where
  "pod1 = \<lparr>FeedURL = ''http://example.org/other.xml'', Name = ''other'', LocalStore = ''/pods/other''\<rparr>"

definition pod404 :: Podcast where
  "pod404 = \<lparr>FeedURL = ''http://example.org/gone/feed.xml'', Name = ''show'', LocalStore = ''/pods/show''\<rparr>"

definition ep :: "string \<Rightarrow> string \<Rightarrow> Episode" where
  "ep t u = \<lparr>Title = t, File = \<lparr>URL = u, Size = 1000\<rparr>, Bytes = 0\<rparr>"

definition ep1 :: Episode where "ep1 = ep ''Ep1'' ''http://example.org/media/ep1.mp3''"

definition ep2 :: Episode where "ep2 = ep ''Ep2'' ''http://example.org/media/ep2.mp3''"

definition ep3 :: Episode where "ep3 = ep ''Ep3'' ''http://example.org/media/ep3.mp3''"

definition ep4 :: Episode where "ep4 = ep ''Ep4'' ''http://example.org/media/ep4.mp3''"

definition epA :: Episode where "epA = ep ''A'' ''http://example.org/media/a.mp3''"

definition epB :: Episode where "epB = ep ''B'' ''http://example.org/down/b.mp3''"

definition epC :: Episode where "epC = ep ''C'' ''http://example.org/media/c.mp3''"

definition epV :: Episode where "epV = ep ''v1.0'' ''http://example.org/media/42''"

definition epG :: Episode where "epG = ep ''Gone'' ''http://example.org/gone/ep.mp3''"

definition env0 :: env where
  "env0 = \<lparr>
     net = (\<lambda>u.
       if u = ''http://example.org/feed.xml''
         then Inr \<lparr>StatusCode = 200, Body = ''F4'', BodyErr = None\<rparr>
       else if take 23 u = ''http://example.org/gone''
         then Inr \<lparr>StatusCode = 404, Body = ''Not Found'', BodyErr = None\<rparr>
       else if take 24 u = ''http://example.org/media''
         then Inr \<lparr>StatusCode = 200, Body = ''audio'', BodyErr = None\<rparr>
       else Inl (HttpErr ''connection refused'')),
     url_Parse = (\<lambda>u.
       if take 18 u = ''http://example.org''
         then Inr \<lparr>url_String = u, url_Path = drop 18 u\<rparr>
       else Inl (UrlErr ''missing protocol scheme'')),
     zip_read = (\<lambda>b.
       if take 3 b = ''ZIP'' then Inr [\<lparr>zname = ''show'', zopen = Inr (drop 3 b)\<rparr>]
       else if b = ''EMPTY'' then Inr []
       else Inl (ZipErr ''not a valid zip file'')),
     zip_Create = (\<lambda>n. None),
     zip_bytes = (\<lambda>n d. ''ZIP'' @ d),
     zip_partial = (\<lambda>n d. ''ZI''),
     zip_Close = (\<lambda>n d. None),
     parseFeed = (\<lambda>d.
       if d = ''F3'' then Inr [ep1, ep2, ep3]
       else if d = ''F4'' then Inr [ep1, ep2, ep3, ep4]
       else if d = ''FX'' then Inr [epA, epB, epC]
       else if d = ''FV'' then Inr [epV]
       else Inl (FeedErr ''unexpected end of document'')),
     humanized = (\<lambda>n. show_nat (unat n) @ '' B''),
     waitApproval = (\<lambda>m. True),
     readPods = (\<lambda>k. Inr [(''show'', 0), (''other'', 1)]),
     deref = (\<lambda>p. if p = 1 then pod1 else pod0),
     map_order = (\<lambda>site ks. rev ks)\<rparr>"

definition env_no :: env where
  "env_no = env0\<lparr>waitApproval := (\<lambda>m. False)\<rparr>"

definition disk :: "(string \<times> string) list \<Rightarrow> world" where
  "disk fs =
     \<lparr>dirs = [(True, []), (True, [''pods'']), (True, [''pods'', ''show''])],
      files = map (\<lambda>(n, b). ((True, [''pods'', ''show'', n]), b)) fs,
      trace = []\<rparr>"

definition w0 :: world where
  "w0 = disk [(''feed.zip'', ''ZIPF3''), (''Ep1.mp3'', ''audio'')]"

definition w_full :: world where
  "w_full = disk [(''feed.zip'', ''ZIPF3''), (''Ep1.mp3'', ''audio''), (''Ep2.mp3'', ''audio''),
                  (''Ep3.mp3'', ''audio'')]"

definition w_x :: world where
  "w_x = disk [(''feed.zip'', ''ZIPFX'')]"

definition w_v :: world where
  "w_v = disk [(''feed.zip'', ''ZIPFV'')]"

definition w_e :: world where
  "w_e = disk [(''feed.zip'', ''EMPTY'')]"

section \<open>Lemmas about the loops\<close>

lemma newEpis_loop_filter:
  "newEpis_loop stored feedEpis acc = acc @ filter (\<lambda>e. \<not> index stored (Title e)) feedEpis"
  by (induction feedEpis arbitrary: acc) simp_all

lemma readStore_loop_index:
  "index (readStore_loop content stored) k \<longleftrightarrow>
     index stored k \<or> (\<exists>e \<in> set content. e \<noteq> feedFileName \<and> TrimSuffix e (Ext e) = k)"
  by (induction content arbitrary: stored) (auto simp: index_def)

lemma run_downloads_append:
  "run_downloads env (xs @ ys) w =
     (case run_downloads env xs w of
        (Some err, w') \<Rightarrow> (Some err, w')
      | (None, w') \<Rightarrow> run_downloads env ys w')"
  by (induction xs arbitrary: w) (auto split: prod.splits option.splits)

lemma DownloadEpisodes_flat:
  "(fst (DownloadEpisodes env pod eps w), snd (snd (DownloadEpisodes env pod eps w))) =
     run_downloads env (map (\<lambda>e. (e, LocalStore pod)) eps) w"
proof (induction eps arbitrary: w)
  case Nil
  show ?case by simp
next
  case (Cons e eps)
  show ?case
  proof (cases "download env e (LocalStore pod) w")
    case (fields r e' w')
    show ?thesis
    proof (cases r)
      case None
      with fields Cons.IH [of w', symmetric] show ?thesis
        by (simp split: prod.splits)
    next
      case (Some err)
      with fields show ?thesis by simp
    qed
  qed
qed

lemma download_loop_flat:
  "download_loop env newEps order w = run_downloads env (batch_order env newEps order) w"
proof (induction order arbitrary: w)
  case Nil
  show ?case by (simp add: batch_order_def)
next
  case (Cons p ps)
  have flat: "run_downloads env (map (\<lambda>e. (e, LocalStore (deref env p))) (eps_of newEps p)) w =
      (fst (DownloadEpisodes env (deref env p) (eps_of newEps p) w),
       snd (snd (DownloadEpisodes env (deref env p) (eps_of newEps p) w)))"
    by (simp add: DownloadEpisodes_flat)
  have "batch_order env newEps (p # ps) =
      map (\<lambda>e. (e, LocalStore (deref env p))) (eps_of newEps p) @ batch_order env newEps ps"
    by (simp add: batch_order_def)
  then show ?case
    using Cons.IH by (simp add: run_downloads_append flat split: prod.splits option.splits)
qed

lemma collect_loop_Inr:
  "collect_loop env pods m w = Inr newEps \<Longrightarrow>
     map_of newEps = (\<lambda>p. if p \<in> set pods then Some (diff_of env w p) else map_of m p) \<and>
     (\<forall>p \<in> set pods. NewEpisodes env (deref env p) w = Inr (diff_of env w p)) \<and>
     fst ` set newEps = fst ` set m \<union> set pods \<and>
     (distinct (map fst m) \<longrightarrow> distinct (map fst newEps))"
proof (induction pods arbitrary: m)
  case Nil
  then show ?case by simp
next
  case (Cons p pods)
  from Cons.prems obtain eps where
    eps: "NewEpisodes env (deref env p) w = Inr eps" and
    rest: "collect_loop env pods (AList.update p eps m) w = Inr newEps"
    by (auto split: sum.splits)
  have d: "diff_of env w p = eps" using eps by (simp add: diff_of_def)
  note IH = Cons.IH [OF rest]
  have 1: "map_of newEps = (\<lambda>q. if q \<in> set (p # pods) then Some (diff_of env w q) else map_of m q)"
    using IH d by (auto simp: update_conv' fun_eq_iff)
  have 2: "\<forall>q \<in> set (p # pods). NewEpisodes env (deref env q) w = Inr (diff_of env w q)"
    using IH eps d by simp
  have 3: "fst ` set newEps = fst ` set m \<union> set (p # pods)"
    using IH by (auto simp: dom_update)
  have 4: "distinct (map fst m) \<longrightarrow> distinct (map fst newEps)"
    using IH by (simp add: distinct_update)
  from 1 2 3 4 show ?case by blast
qed

lemma collect_loop_keys:
  assumes "collect_loop env pods [] w = Inr newEps"
  shows "set (map fst newEps) = set pods" and "distinct (map fst newEps)"
    and "newEps = [] \<longleftrightarrow> pods = []"
proof -
  from collect_loop_Inr [OF assms] have k: "fst ` set newEps = set pods"
    and d: "distinct (map fst newEps)" by simp_all
  show "set (map fst newEps) = set pods" using k by simp
  show "distinct (map fst newEps)" by (rule d)
  show "newEps = [] \<longleftrightarrow> pods = []" using k by (cases newEps; cases pods) auto
qed

lemma collect_loop_eps_of:
  assumes "collect_loop env pods [] w = Inr newEps" and "p \<in> set pods"
  shows "NewEpisodes env (deref env p) w = Inr (eps_of newEps p)"
  using collect_loop_Inr [OF assms(1)] assms(2) by (simp add: eps_of_def)

lemma collect_loop_Inl:
  assumes "\<forall>q \<in> set ps. \<exists>eps. NewEpisodes env (deref env q) w = Inr eps"
    and "NewEpisodes env (deref env p) w = Inl err"
  shows "collect_loop env (ps @ p # rest) m w = Inl err"
  using assms by (induction ps arbitrary: m) auto

lemma range_order_set: "set (range_order env site ks) = set ks"
proof (cases "sort (map_order env site ks) = sort ks")
  case True
  have "set (map_order env site ks) = set (sort (map_order env site ks))" by simp
  also have "\<dots> = set (sort ks)" by (simp only: True)
  also have "\<dots> = set ks" by simp
  finally show ?thesis using True by (simp add: range_order_def)
next
  case False
  then show ?thesis by (simp add: range_order_def)
qed

lemma range_order_distinct: "distinct (range_order env site ks) = distinct ks"
proof (cases "sort (map_order env site ks) = sort ks")
  case True
  have "distinct (map_order env site ks) = distinct (sort (map_order env site ks))" by simp
  also have "\<dots> = distinct (sort ks)" by (simp only: True)
  also have "\<dots> = distinct ks" by simp
  finally show ?thesis using True by (simp add: range_order_def)
next
  case False
  then show ?thesis by (simp add: range_order_def)
qed

lemma updatePods_Inl:
  "collect_loop env pods [] w = Inl err \<Longrightarrow> updatePods env pods w = (Some err, w)"
  by (simp add: updatePods_def)

lemma updatePods_Inr:
  assumes "collect_loop env pods [] w = Inr newEps" and "pods \<noteq> []"
  shows "updatePods env pods w =
     (if waitApproval env (summary_msg env newEps)
      then run_downloads env (batch_order env newEps (range_order env 3 (map fst newEps)))
             (announced env newEps w)
      else (None, announced env newEps w))"
proof -
  have "newEps \<noteq> []" using collect_loop_keys(3) [OF assms(1)] assms(2) by simp
  then show ?thesis
    using assms(1)
    by (simp add: updatePods_def Let_def ask_def summary_msg_def announced_def
        download_loop_flat split: prod.splits)
qed

lemma batch_order_set:
  "set (batch_order env newEps order) =
     {(e, LocalStore (deref env p)) | e p. p \<in> set order \<and> e \<in> set (eps_of newEps p)}"
  by (auto simp: batch_order_def)

section \<open>What an operation leaves unchanged\<close>

lemma requests_append [simp]: "requests (xs @ ys) = requests xs @ requests ys"
  by (simp add: requests_def)

lemma emit_frame [simp]:
  "files (emit ev w) = files w" "dirs (emit ev w) = dirs w"
  "trace (emit ev w) = trace w @ [ev]"
  by (simp_all add: emit_def)

lemma requests_single [simp]:
  "requests [HttpGet u] = [u]" "requests [Print s] = []" "requests [Prompt s] = []"
  by (simp_all add: requests_def)

lemma print_titles_frame [simp]:
  "files (print_titles eps w) = files w" "dirs (print_titles eps w) = dirs w"
  "requests (trace (print_titles eps w)) = requests (trace w)"
  by (induction eps arbitrary: w) simp_all

lemma print_loop_frame [simp]:
  "files (print_loop env newEps ps w) = files w" "dirs (print_loop env newEps ps w) = dirs w"
  "requests (trace (print_loop env newEps ps w)) = requests (trace w)"
  by (induction ps arbitrary: w) simp_all

lemma announced_frame [simp]:
  "files (announced env newEps w) = files w" "dirs (announced env newEps w) = dirs w"
  "requests (trace (announced env newEps w)) = requests (trace w)"
  by (simp_all add: announced_def)

lemma on_disk_write [simp]: "on_disk (write_file n bytes w) = insert n (on_disk w)"
  by (simp add: on_disk_def write_file_def dom_update)

lemma write_file_frame [simp]:
  "dirs (write_file n bytes w) = dirs w" "trace (write_file n bytes w) = trace w"
  "map_of (files (write_file n bytes w)) = (map_of (files w))(n \<mapsto> bytes)"
  by (simp_all add: write_file_def update_conv')

lemma on_disk_emit [simp]: "on_disk (emit ev w) = on_disk w"
  by (simp add: on_disk_def)

lemma os_Create_Inr:
  assumes "os_Create name w = Inr (f, w')"
  shows "f = path_elems name \<and> dirs w' = dirs w \<and> trace w' = trace w \<and>
     on_disk w' = insert f (on_disk w) \<and> map_of (files w') = (map_of (files w))(f \<mapsto> [])"
proof -
  from assms have f: "f = path_elems name"
    by (auto simp: os_Create_def Let_def split: if_splits)
  from assms have w': "w' = w\<lparr>files := AList.update (path_elems name) [] (files w)\<rparr>"
    by (auto simp: os_Create_def Let_def split: if_splits)
  have "on_disk w' = insert f (on_disk w)"
    unfolding on_disk_def w' f by (simp add: dom_update)
  then show ?thesis using f w' by (simp add: update_conv')
qed

lemma download_parse_error:
  "url_Parse env (URL (File e)) = Inl err \<Longrightarrow> download env e dir w = (Some err, e, w)"
  by (simp add: download_def)

lemma download_transport_error:
  "url_Parse env (URL (File e)) = Inr u \<Longrightarrow> net env (url_String u) = Inl err \<Longrightarrow>
     download env e dir w = (Some err, e, emit (HttpGet (url_String u)) w)"
  by (simp add: download_def http_Get_def)

lemma download_failure:
  "download env e dir w = (Some err, e', w') \<Longrightarrow> e' = e"
  by (auto simp: download_def http_Get_def Let_def split: sum.splits prod.splits option.splits)

lemma download_success:
  assumes "download env e dir w = (None, e', w')"
  shows "\<exists>u resp. url_Parse env (URL (File e)) = Inr u \<and> net env (url_String u) = Inr resp \<and>
           BodyErr resp = None \<and>
           e' = e\<lparr>Bytes := of_nat (length (Body resp))\<rparr> \<and>
           map_of (files w') (path_elems (Join dir (Title e @ Ext (url_Path u)))) = Some (Body resp)"
  using assms
  by (auto simp: download_def http_Get_def Let_def
      split: sum.splits prod.splits option.splits dest!: os_Create_Inr)

lemma download_frame:
  assumes "download env e dir w = (r, e', w')"
  shows "dirs w' = dirs w" and "on_disk w \<subseteq> on_disk w'"
    and "set (requests (trace w')) \<subseteq> set (requests (trace w)) \<union> {media_url env e}"
  using assms
  by (auto simp: download_def http_Get_def Let_def media_url_def
      split: sum.splits prod.splits option.splits dest!: os_Create_Inr)

lemma download_success_frame:
  assumes "download env e dir w = (None, e', w')"
  shows "requests (trace w') = requests (trace w) @ [media_url env e]"
    and "\<exists>n. target env e dir = Some n \<and> n \<in> on_disk w'"
proof -
  show "requests (trace w') = requests (trace w) @ [media_url env e]"
    using assms
    by (auto simp: download_def http_Get_def Let_def media_url_def
        split: sum.splits prod.splits option.splits dest!: os_Create_Inr)
  from download_success [OF assms] obtain u and resp :: response where
    u: "url_Parse env (URL (File e)) = Inr u" and
    m: "map_of (files w') (path_elems (Join dir (Title e @ Ext (url_Path u)))) = Some (Body resp)"
    by blast
  from m have "path_elems (Join dir (Title e @ Ext (url_Path u))) \<in> on_disk w'"
    unfolding on_disk_def by (metis map_of_eq_None_iff option.distinct(1))
  then show "\<exists>n. target env e dir = Some n \<and> n \<in> on_disk w'"
    using u by (simp add: target_def)
qed

lemma run_downloads_frame:
  "run_downloads env xs w = (r, w') \<Longrightarrow>
     dirs w' = dirs w \<and> on_disk w \<subseteq> on_disk w' \<and>
     set (requests (trace w')) \<subseteq> set (requests (trace w)) \<union> media_url env ` fst ` set xs"
proof (induction xs arbitrary: w)
  case Nil
  then show ?case by simp
next
  case (Cons x xs)
  obtain e dir where x: "x = (e, dir)" by (cases x)
  obtain r1 e1 w1 where d: "download env e dir w = (r1, e1, w1)"
    by (cases "download env e dir w")
  note f = download_frame [OF d]
  show ?case
  proof (cases r1)
    case (Some err)
    with Cons.prems x d have "w' = w1" by simp
    with f show ?thesis using x by auto
  next
    case None
    with Cons.prems x d have "run_downloads env xs w1 = (r, w')" by simp
    from Cons.IH [OF this] f show ?thesis using x by auto
  qed
qed

lemma run_downloads_success:
  "run_downloads env xs w = (None, w') \<Longrightarrow>
     requests (trace w') = requests (trace w) @ map (\<lambda>x. media_url env (fst x)) xs \<and>
     (\<forall>x \<in> set xs. \<exists>n. target env (fst x) (snd x) = Some n \<and> n \<in> on_disk w')"
proof (induction xs arbitrary: w)
  case Nil
  then show ?case by simp
next
  case (Cons x xs)
  obtain e dir where x: "x = (e, dir)" by (cases x)
  obtain r1 e1 w1 where d: "download env e dir w = (r1, e1, w1)"
    by (cases "download env e dir w")
  from Cons.prems x d have r1: "r1 = None" by (cases r1) auto
  with Cons.prems x d have rest: "run_downloads env xs w1 = (None, w')" by simp
  note f = download_success_frame [OF d [unfolded r1]]
  from run_downloads_frame [OF rest] have "on_disk w1 \<subseteq> on_disk w'" by simp
  with Cons.IH [OF rest] f show ?case using x by auto
qed

section \<open>The example scenario evaluated\<close>

lemma store_w0:
  "readStore pod0 w0 = Inr (readStore_loop [''feed.zip'', ''Ep1.mp3''] Map.empty)"
  by (simp add: readStore_def os_OpenFile_def Readdirnames_def pod0_def w0_def disk_def
      path_elems_def IsPathSeparator_def clean_elem_def parent_def)

lemma index_w0:
  "LocalIndex (readStore_loop [''feed.zip'', ''Ep1.mp3''] Map.empty) = {''Ep1''}"
  by (auto simp: LocalIndex_def readStore_loop_index index_def feedFileName_def
      TrimSuffix_def HasSuffix_def Ext_def IsPathSeparator_def)

lemma collect_w0: "collect_loop env0 [0] [] w0 = Inr [(0, [ep2, ep3])]"
  by code_simp

lemma collect_wx: "collect_loop env0 [0] [] w_x = Inr [(0, [epA, epB, epC])]"
  by code_simp

section \<open>Paths and file names\<close>

subsection \<open>The extension of a name\<close>

lemma ext_scan_found:
  "CHR ''.'' \<notin> set xs \<Longrightarrow> CHR ''/'' \<notin> set xs \<Longrightarrow>
     ext_scan (xs @ CHR ''.'' # ys) acc = CHR ''.'' # rev xs @ acc"
  by (induction xs arbitrary: acc) (auto simp: IsPathSeparator_def)

lemma ext_scan_shape:
  "ext_scan cs acc = [] \<or>
   (\<exists>xs ys. cs = xs @ CHR ''.'' # ys \<and> CHR ''.'' \<notin> set xs \<and> CHR ''/'' \<notin> set xs \<and>
      ext_scan cs acc = CHR ''.'' # rev xs @ acc)"
proof (induction cs arbitrary: acc)
  case Nil
  show ?case by simp
next
  case (Cons c cs)
  show ?case
  proof (cases "IsPathSeparator c")
    case True
    then show ?thesis by simp
  next
    case sep: False
    show ?thesis
    proof (cases "c = CHR ''.''")
      case True
      then have "c # cs = [] @ CHR ''.'' # cs \<and> ext_scan (c # cs) acc = CHR ''.'' # rev [] @ acc"
        using sep by simp
      then show ?thesis by (metis empty_iff list.set(1))
    next
      case False
      from Cons.IH [of "c # acc"] show ?thesis
      proof
        assume "ext_scan cs (c # acc) = []"
        with sep False show ?thesis by simp
      next
        assume "\<exists>xs ys. cs = xs @ CHR ''.'' # ys \<and> CHR ''.'' \<notin> set xs \<and> CHR ''/'' \<notin> set xs \<and>
          ext_scan cs (c # acc) = CHR ''.'' # rev xs @ c # acc"
        then obtain xs ys where cs: "cs = xs @ CHR ''.'' # ys"
          and d: "CHR ''.'' \<notin> set xs" and s: "CHR ''/'' \<notin> set xs"
          and e: "ext_scan cs (c # acc) = CHR ''.'' # rev xs @ c # acc" by blast
        have "c # cs = (c # xs) @ CHR ''.'' # ys" using cs by simp
        moreover have "CHR ''.'' \<notin> set (c # xs)" using d False by simp
        moreover have "CHR ''/'' \<notin> set (c # xs)" using s sep by (simp add: IsPathSeparator_def)
        moreover have "ext_scan (c # cs) acc = CHR ''.'' # rev (c # xs) @ acc"
          using e sep False by simp
        ultimately show ?thesis by blast
      qed
    qed
  qed
qed

lemma Ext_shape:
  "Ext p = [] \<or>
   (\<exists>t s. p = t @ CHR ''.'' # s \<and> CHR ''.'' \<notin> set s \<and> CHR ''/'' \<notin> set s \<and> Ext p = CHR ''.'' # s)"
proof -
  from ext_scan_shape [of "rev p" "[]"] show ?thesis
  proof
    assume "ext_scan (rev p) [] = []"
    then show ?thesis by (simp add: Ext_def)
  next
    assume "\<exists>xs ys. rev p = xs @ CHR ''.'' # ys \<and> CHR ''.'' \<notin> set xs \<and> CHR ''/'' \<notin> set xs \<and>
      ext_scan (rev p) [] = CHR ''.'' # rev xs @ []"
    then obtain xs ys where r: "rev p = xs @ CHR ''.'' # ys"
      and d: "CHR ''.'' \<notin> set xs" and s: "CHR ''/'' \<notin> set xs"
      and e: "ext_scan (rev p) [] = CHR ''.'' # rev xs @ []" by blast
    from r have "rev (rev p) = rev (xs @ CHR ''.'' # ys)" by simp
    then have "p = rev ys @ CHR ''.'' # rev xs" by simp
    moreover have "CHR ''.'' \<notin> set (rev xs)" "CHR ''/'' \<notin> set (rev xs)" using d s by simp_all
    moreover have "Ext p = CHR ''.'' # rev xs" using e by (simp add: Ext_def)
    ultimately show ?thesis by blast
  qed
qed

lemma Ext_append_ext:
  assumes "CHR ''.'' \<notin> set s" and "CHR ''/'' \<notin> set s"
  shows "Ext (t @ CHR ''.'' # s) = CHR ''.'' # s"
proof -
  have "rev (t @ CHR ''.'' # s) = rev s @ CHR ''.'' # rev t" by simp
  then have "Ext (t @ CHR ''.'' # s) = ext_scan (rev s @ CHR ''.'' # rev t) []"
    by (simp only: Ext_def)
  also have "\<dots> = CHR ''.'' # rev (rev s) @ []"
    using assms by (intro ext_scan_found) simp_all
  finally show ?thesis by simp
qed

lemma TrimSuffix_append: "TrimSuffix (t @ e) e = t"
  by (simp add: TrimSuffix_def HasSuffix_def)

lemma TrimSuffix_Ext_fixed: "TrimSuffix t (Ext t) = t \<longleftrightarrow> Ext t = []"
proof
  assume fixed: "TrimSuffix t (Ext t) = t"
  show "Ext t = []"
  proof (rule ccontr)
    assume ne: "Ext t \<noteq> []"
    with Ext_shape [of t] obtain a s where t: "t = a @ CHR ''.'' # s" and e: "Ext t = CHR ''.'' # s"
      by blast
    have "TrimSuffix t (Ext t) = a"
      using TrimSuffix_append [of a "CHR ''.'' # s"] t e by simp
    with fixed t show False by simp
  qed
next
  assume "Ext t = []"
  then show "TrimSuffix t (Ext t) = t" by (simp add: TrimSuffix_def HasSuffix_def)
qed

lemma written_name_round_trip:
  "TrimSuffix (t @ Ext p) (Ext (t @ Ext p)) = t \<longleftrightarrow> Ext p \<noteq> [] \<or> Ext t = []"
proof (cases "Ext p = []")
  case True
  then show ?thesis by (simp add: TrimSuffix_Ext_fixed)
next
  case False
  with Ext_shape [of p] obtain a s where e: "Ext p = CHR ''.'' # s"
    and d: "CHR ''.'' \<notin> set s" and sl: "CHR ''/'' \<notin> set s" by blast
  have "Ext (t @ Ext p) = Ext p" using Ext_append_ext [OF d sl, of t] e by simp
  then show ?thesis using False by (simp add: TrimSuffix_append)
qed

subsection \<open>Cleaning and joining\<close>

lemma split_path_not_Nil [simp]: "split_path p \<noteq> []"
  by (induction p) (auto split: list.splits)

lemma split_path_no_sep: "c \<in> set (split_path p) \<Longrightarrow> CHR ''/'' \<notin> set c"
proof (induction p arbitrary: c)
  case Nil
  then show ?case by simp
next
  case (Cons a p)
  obtain x xs where s: "split_path p = x # xs" by (cases "split_path p") simp_all
  show ?case
  proof (cases "IsPathSeparator a")
    case True
    with Cons show ?thesis by auto
  next
    case False
    with Cons.prems s have "c = a # x \<or> c \<in> set xs" by simp
    then show ?thesis
    proof
      assume "c = a # x"
      moreover have "CHR ''/'' \<notin> set x" using Cons.IH [of x] s by simp
      ultimately show ?thesis using False by (simp add: IsPathSeparator_def)
    next
      assume "c \<in> set xs"
      then show ?thesis using Cons.IH [of c] s by simp
    qed
  qed
qed

lemma split_path_append:
  "split_path (x @ CHR ''/'' # y) = split_path x @ split_path y"
proof (induction x)
  case Nil
  show ?case by (simp add: IsPathSeparator_def)
next
  case (Cons a x)
  obtain h t where s: "split_path x = h # t" by (cases "split_path x") simp_all
  with Cons show ?case by simp
qed

lemma split_path_plain: "CHR ''/'' \<notin> set c \<Longrightarrow> split_path c = [c]"
  by (induction c) (auto simp: IsPathSeparator_def)

lemma split_path_join:
  "es \<noteq> [] \<Longrightarrow> \<forall>c \<in> set es. CHR ''/'' \<notin> set c \<Longrightarrow> split_path (join_elems es) = es"
proof (induction es rule: join_elems.induct)
  case 1
  then show ?case by simp
next
  case (2 x)
  then show ?case by (simp add: split_path_plain)
next
  case (3 x y ys)
  have "split_path (x @ CHR ''/'' # join_elems (y # ys)) = split_path x @ split_path (join_elems (y # ys))"
    by (rule split_path_append)
  with 3 show ?case by (simp add: split_path_plain)
qed

lemma clean_stack_Nil [simp]: "clean_stack r []"
  by (simp add: clean_stack_def)

lemma clean_stack_tl: "clean_stack r (t # ts) \<Longrightarrow> clean_stack r ts"
proof -
  assume a: "clean_stack r (t # ts)"
  then obtain k plain where st: "t # ts = plain @ replicate k ''..''"
    and p: "''..'' \<notin> set plain" and r: "r \<longrightarrow> k = 0"
    by (auto simp: clean_stack_def)
  have el: "\<forall>c \<in> set ts. c \<noteq> [] \<and> c \<noteq> ''.'' \<and> CHR ''/'' \<notin> set c"
    using a by (simp add: clean_stack_def)
  show ?thesis
  proof (cases plain)
    case Nil
    with st obtain k' where "k = Suc k'" "ts = replicate k' ''..''"
      by (cases k) auto
    with r el show ?thesis unfolding clean_stack_def
      by (intro conjI exI [of _ k'] exI [of _ "[]"]) auto
  next
    case (Cons a plain')
    with st have "ts = plain' @ replicate k ''..''" by simp
    with p r el Cons show ?thesis unfolding clean_stack_def
      by (intro conjI exI [of _ k] exI [of _ plain']) auto
  qed
qed

lemma clean_stack_top_dotdot:
  assumes "clean_stack r (''..'' # ts)"
  shows "\<not> r \<and> (ts = [] \<or> hd ts = ''..'')"
proof -
  from assms obtain k plain where st: "''..'' # ts = plain @ replicate k ''..''"
    and p: "''..'' \<notin> set plain" and r: "r \<longrightarrow> k = 0"
    by (auto simp: clean_stack_def)
  have pl: "plain = []"
  proof (cases plain)
    case Nil then show ?thesis .
  next
    case (Cons a plain')
    with st p show ?thesis by auto
  qed
  with st obtain k' where k: "k = Suc k'" and ts: "ts = replicate k' ''..''"
    by (cases k) auto
  from k r have "\<not> r" by auto
  moreover have "ts = [] \<or> hd ts = ''..''" using ts by (cases k') auto
  ultimately show ?thesis by blast
qed

lemma clean_stack_push:
  assumes "clean_stack r st" and "plain_name c"
  shows "clean_stack r (c # st)"
proof -
  from assms(1) obtain k plain where st: "st = plain @ replicate k ''..''"
    and p: "''..'' \<notin> set plain" and r: "r \<longrightarrow> k = 0"
    by (auto simp: clean_stack_def)
  have "c # st = (c # plain) @ replicate k ''..''" using st by simp
  moreover have "''..'' \<notin> set (c # plain)" using p assms(2) by (auto simp: plain_name_def)
  moreover have "\<forall>x \<in> set (c # st). x \<noteq> [] \<and> x \<noteq> ''.'' \<and> CHR ''/'' \<notin> set x"
    using assms by (auto simp: clean_stack_def plain_name_def)
  ultimately show ?thesis using r unfolding clean_stack_def by blast
qed

lemma clean_stack_push_dotdot:
  assumes "clean_stack r st" and "\<not> r" and "st = [] \<or> hd st = ''..''"
  shows "clean_stack r (''..'' # st)"
proof -
  from assms(1) obtain k plain where st: "st = plain @ replicate k ''..''"
    and p: "''..'' \<notin> set plain"
    by (auto simp: clean_stack_def)
  have pl: "plain = []"
  proof (cases plain)
    case Nil then show ?thesis .
  next
    case (Cons a plain')
    with st assms(3) p show ?thesis by auto
  qed
  have el: "\<forall>x \<in> set (''..'' # st). x \<noteq> [] \<and> x \<noteq> ''.'' \<and> CHR ''/'' \<notin> set x"
    using assms(1) by (auto simp: clean_stack_def)
  have "''..'' # st = [] @ replicate (Suc k) ''..''" using st pl by simp
  with el assms(2) show ?thesis unfolding clean_stack_def
    by (intro conjI exI [of _ "Suc k"] exI [of _ "[]"]) auto
qed

lemma clean_elem_keeps_clean:
  assumes "clean_stack r st" and "CHR ''/'' \<notin> set c"
  shows "clean_stack r (clean_elem r st c)"
proof (cases "c = [] \<or> c = ''.''")
  case True
  with assms show ?thesis by (auto simp: clean_elem_def)
next
  case nd: False
  show ?thesis
  proof (cases "c = ''..''")
    case False
    with nd assms have "plain_name c" by (simp add: plain_name_def)
    from clean_stack_push [OF assms(1) this] nd False show ?thesis by (simp add: clean_elem_def)
  next
    case True
    show ?thesis
    proof (cases st)
      case Nil
      show ?thesis
      proof (cases r)
        case True
        with Nil \<open>c = ''..''\<close> show ?thesis by (simp add: clean_elem_def)
      next
        case False
        from clean_stack_push_dotdot [of r "[]"] False have "clean_stack r [''..'']" by simp
        with Nil False \<open>c = ''..''\<close> show ?thesis by (simp add: clean_elem_def)
      qed
    next
      case (Cons t ts)
      show ?thesis
      proof (cases "t = ''..''")
        case True
        with assms(1) Cons have "\<not> r" using clean_stack_top_dotdot by blast
        from clean_stack_push_dotdot [OF assms(1) this] Cons True
        have "clean_stack r (''..'' # st)" by simp
        with Cons True \<open>c = ''..''\<close> show ?thesis by (simp add: clean_elem_def)
      next
        case False
        from clean_stack_tl assms(1) Cons have "clean_stack r ts" by blast
        with Cons False \<open>c = ''..''\<close> show ?thesis by (simp add: clean_elem_def)
      qed
    qed
  qed
qed

lemma foldl_clean_keeps_clean:
  "clean_stack r st \<Longrightarrow> \<forall>c \<in> set cs. CHR ''/'' \<notin> set c \<Longrightarrow>
     clean_stack r (foldl (clean_elem r) st cs)"
  by (induction cs arbitrary: st) (simp_all add: clean_elem_keeps_clean)

lemma clean_elem_on_clean:
  assumes "clean_stack r (t # ts)"
  shows "clean_elem r ts t = t # ts"
proof (cases "t = ''..''")
  case True
  with assms clean_stack_top_dotdot have "\<not> r \<and> (ts = [] \<or> hd ts = ''..'')" by blast
  with True show ?thesis by (cases ts) (auto simp: clean_elem_def)
next
  case False
  moreover from assms have "t \<noteq> [] \<and> t \<noteq> ''.''" by (simp add: clean_stack_def)
  ultimately show ?thesis by (simp add: clean_elem_def)
qed

lemma foldl_clean_rev:
  "clean_stack r st \<Longrightarrow> foldl (clean_elem r) [] (rev st) = st"
proof (induction st)
  case Nil
  show ?case by simp
next
  case (Cons t ts)
  from clean_stack_tl [OF Cons.prems] Cons.IH have "foldl (clean_elem r) [] (rev ts) = ts" by simp
  then show ?case using clean_elem_on_clean [OF Cons.prems] by simp
qed

lemma path_elems_clean: "clean_stack (fst (path_elems p)) (rev (snd (path_elems p)))"
  by (simp add: path_elems_def Let_def foldl_clean_keeps_clean split_path_no_sep)

lemma join_elems_hd:
  "es \<noteq> [] \<Longrightarrow> \<forall>c \<in> set es. c \<noteq> [] \<and> CHR ''/'' \<notin> set c \<Longrightarrow>
     \<exists>a s. join_elems es = a # s \<and> a \<noteq> CHR ''/''"
proof (induction es rule: join_elems.induct)
  case 1
  then show ?case by simp
next
  case (2 x)
  then show ?case by (cases x) auto
next
  case (3 x y ys)
  then show ?case by (cases x) auto
qed

lemma path_elems_render:
  assumes "clean_stack r (rev es)"
  shows "path_elems (let s = (if r then ''/'' else []) @ join_elems es in if s = [] then ''.'' else s)
           = (r, es)"
proof -
  have el: "\<forall>c \<in> set es. c \<noteq> [] \<and> CHR ''/'' \<notin> set c"
    using assms by (auto simp: clean_stack_def)
  have fold: "foldl (clean_elem r) [] es = rev es"
    using foldl_clean_rev [OF assms] by simp
  show ?thesis
  proof (cases es)
    case Nil
    show ?thesis
    proof (cases r)
      case True
      with Nil show ?thesis
        by (simp add: path_elems_def IsPathSeparator_def clean_elem_def)
    next
      case False
      with Nil show ?thesis
        by (simp add: path_elems_def IsPathSeparator_def clean_elem_def)
    qed
  next
    case (Cons e es')
    then have ne: "es \<noteq> []" by simp
    have sp: "split_path (join_elems es) = es" using split_path_join [OF ne] el by blast
    from join_elems_hd [OF ne el] obtain a s where j: "join_elems es = a # s" and a: "a \<noteq> CHR ''/''"
      by blast
    show ?thesis
    proof (cases r)
      case True
      have "split_path (CHR ''/'' # join_elems es) = [] # es"
        using sp by (simp add: IsPathSeparator_def)
      moreover have "foldl (clean_elem True) [] ([] # es) = foldl (clean_elem True) [] es"
        by (simp add: clean_elem_def)
      ultimately show ?thesis using True fold
        by (simp add: path_elems_def IsPathSeparator_def)
    next
      case False
      have "path_elems (join_elems es) = (False, rev (foldl (clean_elem False) [] es))"
        unfolding path_elems_def Let_def sp using j a by (simp add: IsPathSeparator_def)
      with False fold j show ?thesis by simp
    qed
  qed
qed

lemma path_elems_Clean: "path_elems (Clean p) = path_elems p"
proof -
  obtain r es where pe: "path_elems p = (r, es)" by (cases "path_elems p")
  from path_elems_clean [of p] pe have "clean_stack r (rev es)" by simp
  from path_elems_render [OF this] pe show ?thesis by (simp add: Clean_def)
qed

lemma path_elems_plain: "plain_name n \<Longrightarrow> path_elems n = (False, [n])"
  by (cases n) (auto simp: path_elems_def plain_name_def split_path_plain clean_elem_def
      IsPathSeparator_def)

lemma path_elems_slash_plain:
  assumes "d \<noteq> []" and "plain_name n"
  shows "path_elems (d @ CHR ''/'' # n) = (fst (path_elems d), snd (path_elems d) @ [n])"
proof -
  have sp: "split_path (d @ CHR ''/'' # n) = split_path d @ [n]"
    using assms(2) by (simp add: split_path_append split_path_plain plain_name_def)
  have r: "(case d @ CHR ''/'' # n of [] \<Rightarrow> False | c # _ \<Rightarrow> IsPathSeparator c) =
      (case d of [] \<Rightarrow> False | c # _ \<Rightarrow> IsPathSeparator c)"
    using assms(1) by (cases d) simp_all
  have "clean_elem rt st n = n # st" for rt st
    using assms(2) by (simp add: clean_elem_def plain_name_def)
  then show ?thesis
    unfolding path_elems_def Let_def sp r by simp
qed

lemma path_elems_Join:
  assumes "plain_name n"
  shows "path_elems (Join d n) =
     (if d = [] then (False, [n]) else (fst (path_elems d), snd (path_elems d) @ [n]))"
proof -
  have n: "n \<noteq> []" using assms by (simp add: plain_name_def)
  show ?thesis
  proof (cases "d = []")
    case True
    with n show ?thesis by (simp add: Join_def path_elems_Clean path_elems_plain [OF assms])
  next
    case False
    with n have "Join d n = Clean (d @ CHR ''/'' # n)" by (simp add: Join_def)
    with False show ?thesis
      by (simp add: path_elems_Clean path_elems_slash_plain [OF False assms])
  qed
qed

lemma parent_Join:
  "plain_name n \<Longrightarrow> d \<noteq> [] \<Longrightarrow> parent (path_elems (Join d n)) = path_elems d"
  by (simp add: path_elems_Join parent_def)

lemma last_Join:
  "plain_name n \<Longrightarrow> last (snd (path_elems (Join d n))) = n \<and> snd (path_elems (Join d n)) \<noteq> []"
  by (simp add: path_elems_Join)

lemma plain_feedFileName: "plain_name feedFileName"
  by (simp add: plain_name_def feedFileName_def)

section \<open>The diff\<close>

text \<open>
  C1. When the directory can be listed, the snapshot opens with at least one entry and
  that entry parses, \<^verbatim>\<open>NewEpisodes\<close> returns exactly the episodes of the feed whose title
  is not in the local index, in the order of the feed: the feed filtered by title, with
  nothing reordered and nothing removed for any other reason.
\<close>

theorem NewEpisodes_feed_minus_index:
  assumes "readStore pod w = Inr stored"
    and "zip_OpenReader env (feedFile pod) w = Inr arc"
    and "arc \<noteq> []"
    and "zopen (arc ! 0) = Inr feed"
    and "parseFeed env feed = Inr feedEpis"
  shows "NewEpisodes env pod w = Inr (filter (\<lambda>e. Title e \<notin> LocalIndex stored) feedEpis)"
  using assms by (simp add: NewEpisodes_def newEpis_loop_filter LocalIndex_def)

theorem NewEpisodes_feed_minus_index_witness:
  "NewEpisodes env0 pod0 w0 = Inr [ep2, ep3]"
proof -
  have 2: "zip_OpenReader env0 (feedFile pod0) w0 = Inr [\<lparr>zname = ''show'', zopen = Inr ''F3''\<rparr>]"
    by code_simp
  have 3: "[\<lparr>zname = ''show'', zopen = Inr ''F3''\<rparr>] \<noteq> []" by simp
  have 4: "zopen ([\<lparr>zname = ''show'', zopen = Inr ''F3''\<rparr>] ! 0) = Inr ''F3''" by simp
  have 5: "parseFeed env0 ''F3'' = Inr [ep1, ep2, ep3]" by (simp add: env0_def)
  have 6: "filter (\<lambda>e. Title e \<notin> {''Ep1''}) [ep1, ep2, ep3] = [ep2, ep3]"
    by (simp add: ep1_def ep2_def ep3_def ep_def)
  from NewEpisodes_feed_minus_index [OF store_w0 2 3 4 5] show ?thesis
    by (simp only: index_w0 6)
qed

text \<open>
  The snapshot lies in the storage directory: where it can be read in a well-formed file
  system, the directory can be listed.
\<close>

lemma snapshot_readable_store_listable:
  assumes "fs_wf w" and "LocalStore pod \<noteq> []"
    and "zip_OpenReader env (feedFile pod) w = Inr arc"
  shows "\<exists>stored. readStore pod w = Inr stored"
proof -
  let ?f = "path_elems (feedFile pod)"
  from assms(3) obtain bytes where "read_file (feedFile pod) w = Inr bytes"
    by (auto simp: zip_OpenReader_def split: sum.splits)
  then have "map_of (files w) ?f = Some bytes"
    by (auto simp: read_file_def split: if_splits option.splits)
  then have "?f \<in> fst ` set (files w)"
    by (metis map_of_eq_None_iff option.distinct(1))
  with assms(1) have "parent ?f \<in> set (dirs w)" unfolding fs_wf_def by blast
  then have d: "path_elems (LocalStore pod) \<in> set (dirs w)"
    using parent_Join [OF plain_feedFileName assms(2)] by (simp add: feedFile_def)
  then have "os_OpenFile (LocalStore pod) w = Inr (path_elems (LocalStore pod))"
    using assms(2) by (simp add: os_OpenFile_def)
  with d show ?thesis
    by (simp add: readStore_def Readdirnames_def)
qed

text \<open>
  C9. When the snapshot archive has no entries, \<^verbatim>\<open>NewEpisodes\<close> never returns a diff. It
  fails with \<^verbatim>\<open>ErrArchiveEmpty\<close> whenever the storage directory could be listed, which is
  the step before the archive is opened; in a well-formed file system with a non-empty
  \<^verbatim>\<open>LocalStore\<close> that is always so, since the snapshot lies in that directory.
\<close>

theorem NewEpisodes_empty_archive:
  assumes "zip_OpenReader env (feedFile pod) w = Inr []"
  shows "(\<forall>eps. NewEpisodes env pod w \<noteq> Inr eps) \<and>
     (\<forall>stored. readStore pod w = Inr stored \<longrightarrow> NewEpisodes env pod w = Inl ErrArchiveEmpty) \<and>
     (fs_wf w \<and> LocalStore pod \<noteq> [] \<longrightarrow> NewEpisodes env pod w = Inl ErrArchiveEmpty)"
proof -
  have 1: "\<forall>eps. NewEpisodes env pod w \<noteq> Inr eps"
    using assms by (simp add: NewEpisodes_def split: sum.splits)
  have 2: "\<forall>stored. readStore pod w = Inr stored \<longrightarrow> NewEpisodes env pod w = Inl ErrArchiveEmpty"
    using assms by (simp add: NewEpisodes_def)
  have 3: "fs_wf w \<and> LocalStore pod \<noteq> [] \<longrightarrow> NewEpisodes env pod w = Inl ErrArchiveEmpty"
  proof
    assume a: "fs_wf w \<and> LocalStore pod \<noteq> []"
    then have "\<exists>stored. readStore pod w = Inr stored"
      using snapshot_readable_store_listable [OF _ _ assms] by blast
    with 2 show "NewEpisodes env pod w = Inl ErrArchiveEmpty" by blast
  qed
  from 1 2 3 show ?thesis by blast
qed

theorem NewEpisodes_empty_archive_witness:
  "fs_wf w_e \<and> LocalStore pod0 \<noteq> [] \<and> NewEpisodes env0 pod0 w_e = Inl ErrArchiveEmpty"
proof -
  have a: "zip_OpenReader env0 (feedFile pod0) w_e = Inr []" by code_simp
  have b: "fs_wf w_e \<and> LocalStore pod0 \<noteq> []"
    by (simp add: fs_wf_def w_e_def disk_def parent_def pod0_def)
  from NewEpisodes_empty_archive [OF a, THEN conjunct2, THEN conjunct2, THEN mp, OF b] b
  show ?thesis by blast
qed

section \<open>Fetching\<close>

text \<open>
  With a feed URL that answers 404, \<^verbatim>\<open>refreshFeed\<close> succeeds and the snapshot is replaced
  by an archive of the error page.
\<close>

theorem refreshFeed_not_found_counterexample:
  "net env0 (FeedURL pod404) = Inr \<lparr>StatusCode = 404, Body = ''Not Found'', BodyErr = None\<rparr> \<and>
   fst (refreshFeed env0 pod404 w0) = None \<and>
   read_file (feedFile pod404) w0 = Inr ''ZIPF3'' \<and>
   read_file (feedFile pod404) (snd (refreshFeed env0 pod404 w0)) = Inr ''ZIPNot Found''"
  by code_simp

text \<open>
  C4 (amended). When \<^verbatim>\<open>http.Get\<close> fails, \<^verbatim>\<open>refreshFeed\<close> returns that error and the file
  system is as before; the files change only when \<^verbatim>\<open>http.Get\<close> returned a response; and
  the status code of the response plays no part: with any other status code in the same
  response \<^verbatim>\<open>refreshFeed\<close> does the same.
\<close>

theorem refreshFeed_writes_after_response:
  "(net env (FeedURL pod) = Inl err \<longrightarrow>
      refreshFeed env pod w = (Some err, emit (HttpGet (FeedURL pod)) w)) \<and>
   (files (snd (refreshFeed env pod w)) \<noteq> files w \<longrightarrow>
      (\<exists>resp. net env (FeedURL pod) = Inr resp)) \<and>
   (net env (FeedURL pod) = Inr resp \<longrightarrow>
      refreshFeed (env\<lparr>net := (net env)(FeedURL pod := Inr (resp\<lparr>StatusCode := c\<rparr>))\<rparr>) pod w =
      refreshFeed env pod w)"
proof (intro conjI impI)
  assume "net env (FeedURL pod) = Inl err"
  then show "refreshFeed env pod w = (Some err, emit (HttpGet (FeedURL pod)) w)"
    by (simp add: refreshFeed_def http_Get_def)
next
  assume ch: "files (snd (refreshFeed env pod w)) \<noteq> files w"
  show "\<exists>resp. net env (FeedURL pod) = Inr resp"
  proof (cases "net env (FeedURL pod)")
    case (Inl e)
    then have "refreshFeed env pod w = (Some e, emit (HttpGet (FeedURL pod)) w)"
      by (simp add: refreshFeed_def http_Get_def)
    with ch show ?thesis by simp
  next
    case (Inr r)
    then show ?thesis by blast
  qed
next
  assume "net env (FeedURL pod) = Inr resp"
  then show "refreshFeed (env\<lparr>net := (net env)(FeedURL pod := Inr (resp\<lparr>StatusCode := c\<rparr>))\<rparr>) pod w =
      refreshFeed env pod w"
    by (simp add: refreshFeed_def http_Get_def
        cong: sum.case_cong option.case_cong prod.case_cong)
qed

theorem refreshFeed_writes_after_response_witness:
  "refreshFeed env0 pod1 w0 =
     (Some (HttpErr ''connection refused''), emit (HttpGet (FeedURL pod1)) w0) \<and>
   (\<exists>resp. net env0 (FeedURL pod0) = Inr resp) \<and>
   refreshFeed (env0\<lparr>net := (net env0)(FeedURL pod0 :=
       Inr (\<lparr>StatusCode = 200, Body = ''F4'', BodyErr = None\<rparr>\<lparr>StatusCode := 500\<rparr>))\<rparr>) pod0 w0 =
     refreshFeed env0 pod0 w0"
proof -
  have a: "net env0 (FeedURL pod1) = Inl (HttpErr ''connection refused'')" by code_simp
  have b: "files (snd (refreshFeed env0 pod0 w0)) \<noteq> files w0" by code_simp
  have c: "net env0 (FeedURL pod0) = Inr \<lparr>StatusCode = 200, Body = ''F4'', BodyErr = None\<rparr>"
    by code_simp
  note 1 = refreshFeed_writes_after_response [THEN conjunct1, THEN mp, OF a]
  note 2 = refreshFeed_writes_after_response [THEN conjunct2, THEN conjunct1, THEN mp, OF b]
  note 3 = refreshFeed_writes_after_response [THEN conjunct2, THEN conjunct2, THEN mp, OF c]
  from 1 2 3 show ?thesis by (intro conjI)
qed

text \<open>
  With a media URL that answers 404, \<^verbatim>\<open>download\<close> succeeds and sets \<^verbatim>\<open>Bytes\<close> to the
  length of the error page.
\<close>

theorem download_not_found_counterexample:
  "net env0 (URL (File epG)) = Inr \<lparr>StatusCode = 404, Body = ''Not Found'', BodyErr = None\<rparr> \<and>
   fst (download env0 epG ''/pods/show'' w0) = None \<and>
   Bytes epG = 0 \<and>
   Bytes (fst (snd (download env0 epG ''/pods/show'' w0))) = 9"
  by code_simp

text \<open>
  C5 (amended). When \<^verbatim>\<open>http.Get\<close> fails, \<^verbatim>\<open>download\<close> returns that error; whenever
  \<^verbatim>\<open>download\<close> returns an error the episode is as before; when it returns without error
  \<^verbatim>\<open>Bytes\<close> is the number of bytes of the body, of a response whose body was read to the
  end; and the status code of the response plays no part.
\<close>

theorem download_sets_Bytes_on_success:
  "(url_Parse env (URL (File e)) = Inr u \<and> net env (url_String u) = Inl err \<longrightarrow>
      download env e dir w = (Some err, e, emit (HttpGet (url_String u)) w)) \<and>
   (download env e dir w = (Some err', e', w') \<longrightarrow> e' = e) \<and>
   (download env e dir w = (None, e', w') \<longrightarrow>
      (\<exists>u resp. url_Parse env (URL (File e)) = Inr u \<and> net env (url_String u) = Inr resp \<and>
         BodyErr resp = None \<and> e' = e\<lparr>Bytes := of_nat (length (Body resp))\<rparr>)) \<and>
   (url_Parse env (URL (File e)) = Inr u \<and> net env (url_String u) = Inr resp \<longrightarrow>
      download (env\<lparr>net := (net env)(url_String u := Inr (resp\<lparr>StatusCode := c\<rparr>))\<rparr>) e dir w =
      download env e dir w)"
proof (intro conjI impI)
  assume "url_Parse env (URL (File e)) = Inr u \<and> net env (url_String u) = Inl err"
  then show "download env e dir w = (Some err, e, emit (HttpGet (url_String u)) w)"
    by (simp add: download_transport_error)
next
  assume "download env e dir w = (Some err', e', w')"
  then show "e' = e" by (rule download_failure)
next
  assume "download env e dir w = (None, e', w')"
  from download_success [OF this]
  show "\<exists>u resp. url_Parse env (URL (File e)) = Inr u \<and> net env (url_String u) = Inr resp \<and>
         BodyErr resp = None \<and> e' = e\<lparr>Bytes := of_nat (length (Body resp))\<rparr>"
    by blast
next
  assume "url_Parse env (URL (File e)) = Inr u \<and> net env (url_String u) = Inr resp"
  then show "download (env\<lparr>net := (net env)(url_String u := Inr (resp\<lparr>StatusCode := c\<rparr>))\<rparr>) e dir w =
      download env e dir w"
    by (simp add: download_def http_Get_def Let_def
        cong: sum.case_cong option.case_cong prod.case_cong)
qed

theorem download_sets_Bytes_on_success_witness:
  "download env0 epB ''/pods/show'' w0 =
     (Some (HttpErr ''connection refused''), epB, emit (HttpGet ''http://example.org/down/b.mp3'') w0) \<and>
   (\<exists>u resp. url_Parse env0 (URL (File ep2)) = Inr u \<and> net env0 (url_String u) = Inr resp \<and>
      BodyErr resp = None \<and>
      fst (snd (download env0 ep2 ''/pods/show'' w0)) = ep2\<lparr>Bytes := of_nat (length (Body resp))\<rparr>)"
proof -
  let ?u = "\<lparr>url_String = ''http://example.org/down/b.mp3'', url_Path = ''/down/b.mp3''\<rparr>"
  have a: "url_Parse env0 (URL (File epB)) = Inr ?u \<and>
      net env0 (url_String ?u) = Inl (HttpErr ''connection refused'')" by code_simp
  have 1: "download env0 epB ''/pods/show'' w0 =
     (Some (HttpErr ''connection refused''), epB, emit (HttpGet ''http://example.org/down/b.mp3'') w0)"
    using download_sets_Bytes_on_success [THEN conjunct1, THEN mp, OF a] by simp
  have s: "download env0 ep2 ''/pods/show'' w0 =
      (None, fst (snd (download env0 ep2 ''/pods/show'' w0)),
       snd (snd (download env0 ep2 ''/pods/show'' w0)))" by code_simp
  note 2 = download_sets_Bytes_on_success [THEN conjunct2, THEN conjunct2, THEN conjunct1,
      THEN mp, OF s]
  from 1 2 show ?thesis by (intro conjI)
qed

text \<open>
  Where the round trip does hold: after a successful download under a plain file name
  other than that of the snapshot, the storage directory can be listed, and the index
  holds the title whenever the URL path had an extension or the title has none.
\<close>

lemma os_Create_parent:
  "os_Create name w = Inr (f, w') \<Longrightarrow> name \<noteq> [] \<and> parent f \<in> set (dirs w)"
  by (auto simp: os_Create_def Let_def split: if_splits)

lemma download_success_create:
  assumes "download env e dir w = (None, e', w')" and "url_Parse env (URL (File e)) = Inr u"
  shows "\<exists>(resp :: response) f w2.
     os_Create (Join dir (Title e @ Ext (url_Path u))) (emit (HttpGet (url_String u)) w) = Inr (f, w2) \<and>
     w' = write_file f (Body resp) w2"
  using assms
  by (auto simp: download_def http_Get_def Let_def split: sum.splits prod.splits option.splits)

lemma readStore_after_download:
  assumes d: "download env e dir w = (None, e', w')"
    and u: "url_Parse env (URL (File e)) = Inr u"
    and dir: "dir \<noteq> []" and ls: "LocalStore pod = dir"
    and pn: "plain_name (Title e @ Ext (url_Path u))"
  shows "\<exists>stored. readStore pod w' = Inr stored \<and>
     (Title e @ Ext (url_Path u) \<noteq> feedFileName \<longrightarrow>
      Ext (url_Path u) \<noteq> [] \<or> Ext (Title e) = [] \<longrightarrow> index stored (Title e))"
proof -
  let ?name = "Title e @ Ext (url_Path u)"
  let ?w1 = "emit (HttpGet (url_String u)) w"
  from download_success_create [OF d u] obtain resp :: response and f w2 where
    cr: "os_Create (Join dir ?name) ?w1 = Inr (f, w2)" and w': "w' = write_file f (Body resp) w2"
    by blast
  from os_Create_Inr [OF cr] have f: "f = path_elems (Join dir ?name)"
    and d2: "dirs w2 = dirs w" by simp_all
  from os_Create_parent [OF cr] have "parent f \<in> set (dirs w)" by simp
  then have pd: "path_elems dir \<in> set (dirs w')"
    using parent_Join [OF pn dir] f d2 w' by simp
  have fd: "f \<in> fst ` set (files w')"
    using w' on_disk_write [of f "Body resp" w2] by (simp add: on_disk_def)
  have pf: "parent f = path_elems dir" using parent_Join [OF pn dir] f by simp
  have lf: "last (snd f) = ?name" and nf: "snd f \<noteq> []" using last_Join [OF pn, of dir] f by simp_all
  let ?content = "map (\<lambda>n. last (snd n))
      (filter (\<lambda>n. snd n \<noteq> [] \<and> parent n = path_elems dir) (map fst (files w') @ dirs w'))"
  have "f \<in> set (filter (\<lambda>n. snd n \<noteq> [] \<and> parent n = path_elems dir) (map fst (files w') @ dirs w'))"
    using fd pf nf by auto
  then have "last (snd f) \<in> set ?content" unfolding set_map by (rule imageI)
  then have mem: "?name \<in> set ?content" using lf by simp
  have rs: "readStore pod w' = Inr (readStore_loop ?content Map.empty)"
    using pd dir ls by (simp add: readStore_def os_OpenFile_def Readdirnames_def)
  have "index (readStore_loop ?content Map.empty) (Title e)"
    if "?name \<noteq> feedFileName" and "Ext (url_Path u) \<noteq> [] \<or> Ext (Title e) = []"
  proof -
    from that(2) have "TrimSuffix ?name (Ext ?name) = Title e"
      by (simp add: written_name_round_trip)
    with mem that(1) show ?thesis
      unfolding readStore_loop_index by blast
  qed
  with rs show ?thesis by blast
qed

text \<open>
  C6. The episode \<^verbatim>\<open>v1.0\<close> has a media URL whose path has no extension. Its download
  succeeds and writes the file \<^verbatim>\<open>v1.0\<close>; \<^verbatim>\<open>readStore\<close> over the directory then holds
  \<^verbatim>\<open>v1\<close> and not the title, and \<^verbatim>\<open>NewEpisodes\<close> reports the episode as new again.
\<close>

theorem round_trip_fails_on_dotted_title:
  "(case download env0 epV ''/pods/show'' w_v of
      (r, e', w') \<Rightarrow>
        r = None \<and>
        (case readStore pod0 w' of
           Inl _ \<Rightarrow> False
         | Inr stored \<Rightarrow> \<not> index stored (Title epV) \<and> index stored ''v1'') \<and>
        NewEpisodes env0 pod0 w' = Inr [epV])"
  by code_simp

section \<open>The batch\<close>

text \<open>
  What an update requests: \<^verbatim>\<open>NewEpisodes\<close> does not depend on the network, and every
  request that \<^verbatim>\<open>updatePods\<close> makes is the media URL of a new episode of one of its
  podcasts, computed from the snapshot as it is stored.
\<close>

lemma updatePods_reads_cached_snapshot:
  "NewEpisodes (env\<lparr>net := n\<rparr>) pod w = NewEpisodes env pod w \<and>
   set (requests (trace (snd (updatePods env pods w)))) \<subseteq>
     set (requests (trace w)) \<union>
     {media_url env e | e p. p \<in> set pods \<and> e \<in> set (diff_of env w p)}"
proof
  show "NewEpisodes (env\<lparr>net := n\<rparr>) pod w = NewEpisodes env pod w"
    by (simp add: NewEpisodes_def zip_OpenReader_def cong: sum.case_cong if_cong)
next
  let ?M = "{media_url env e | e p. p \<in> set pods \<and> e \<in> set (diff_of env w p)}"
  show "set (requests (trace (snd (updatePods env pods w)))) \<subseteq> set (requests (trace w)) \<union> ?M"
  proof (cases "collect_loop env pods [] w")
    case (Inl err)
    then show ?thesis by (simp add: updatePods_Inl)
  next
    case (Inr newEps)
    show ?thesis
    proof (cases "pods = []")
      case True
      with Inr show ?thesis by (simp add: updatePods_def)
    next
      case False
      note u = updatePods_Inr [OF Inr False]
      show ?thesis
      proof (cases "waitApproval env (summary_msg env newEps)")
        case False
        with u show ?thesis by simp
      next
        case True
        let ?batch = "batch_order env newEps (range_order env 3 (map fst newEps))"
        obtain r w' where rd: "run_downloads env ?batch (announced env newEps w) = (r, w')"
          by (cases "run_downloads env ?batch (announced env newEps w)")
        from run_downloads_frame [OF rd]
        have sub: "set (requests (trace w')) \<subseteq>
            set (requests (trace w)) \<union> media_url env ` fst ` set ?batch"
          by simp
        have "media_url env ` fst ` set ?batch \<subseteq> ?M"
        proof
          fix x assume "x \<in> media_url env ` fst ` set ?batch"
          then obtain e p where p: "p \<in> set (range_order env 3 (map fst newEps))"
            and e: "e \<in> set (eps_of newEps p)" and x: "x = media_url env e"
            by (auto simp: batch_order_set)
          from p have pp: "p \<in> set pods"
            using collect_loop_keys(1) [OF Inr] by (simp add: range_order_set)
          from collect_loop_eps_of [OF Inr pp] have "diff_of env w p = eps_of newEps p"
            by (simp add: diff_of_def)
          with e have "e \<in> set (diff_of env w p)" by simp
          with pp show "x \<in> ?M" unfolding x by blast
        qed
        with sub have "set (requests (trace w')) \<subseteq> set (requests (trace w)) \<union> ?M"
          by blast
        moreover have "snd (updatePods env pods w) = w'" using u True rd by simp
        ultimately show ?thesis by simp
      qed
    qed
  qed
qed

text \<open>
  C2. The remote feed lists four episodes, the stored snapshot three, and \<^verbatim>\<open>Ep1\<close> is on
  disk. \<^verbatim>\<open>updatePods\<close> requests the media of \<^verbatim>\<open>Ep2\<close> and \<^verbatim>\<open>Ep3\<close> and nothing else: the
  feed URL is never requested, the snapshot is the one of before, and \<^verbatim>\<open>Ep4\<close>, which is
  in the feed and not in the local storage, is not downloaded, against the help text of
  the command (\<^verbatim>\<open>downloading all episodes that are not yet present in the local
  storage\<close>). A refresh followed by the diff, as \<^verbatim>\<open>New\<close> refreshes before it registers,
  gives all three.
\<close>

theorem update_misses_new_remote_episode:
  "net env0 (FeedURL pod0) = Inr \<lparr>StatusCode = 200, Body = ''F4'', BodyErr = None\<rparr> \<and>
   parseFeed env0 ''F4'' = Inr [ep1, ep2, ep3, ep4] \<and>
   fst (updatePods env0 [0] w0) = None \<and>
   requests (trace (snd (updatePods env0 [0] w0))) =
     [''http://example.org/media/ep2.mp3'', ''http://example.org/media/ep3.mp3''] \<and>
   FeedURL pod0 \<notin> set (requests (trace (snd (updatePods env0 [0] w0)))) \<and>
   read_file (feedFile pod0) (snd (updatePods env0 [0] w0)) = read_file (feedFile pod0) w0 \<and>
   on_disk (snd (updatePods env0 [0] w0)) =
     {(True, [''pods'', ''show'', ''feed.zip'']), (True, [''pods'', ''show'', ''Ep1.mp3'']),
      (True, [''pods'', ''show'', ''Ep2.mp3'']), (True, [''pods'', ''show'', ''Ep3.mp3''])} \<and>
   NewEpisodes env0 pod0 (snd (refreshFeed env0 pod0 w0)) = Inr [ep2, ep3, ep4]"
  by code_simp

text \<open>
  C3. One podcast whose three episodes are all stored: every diff is empty, and
  \<^verbatim>\<open>updatePods\<close> prints the name of the podcast and asks whether to download 0 episodes;
  the line \<^verbatim>\<open>No new episodes. Nothing to do.\<close> is not printed, because the test is on the
  number of podcasts in \<^verbatim>\<open>newEps\<close>.
\<close>

theorem nothing_to_do_prompts:
  "updatePods env0 [0] w_full =
     (None, w_full\<lparr>trace :=
        [Print (''show:'' @ nl @ ''------------------'' @ nl),
         Prompt (nl @ ''Download 0 episodes for 0 B?'')]\<rparr>) \<and>
   NewEpisodes env0 (deref env0 0) w_full = Inr []"
  by code_simp

text \<open>
  C7. When every diff succeeded and there is at least one podcast: the download loop
  visits every podcast of the batch once; on approval \<^verbatim>\<open>updatePods\<close> is the downloader run
  over all new episodes of the first podcast visited, in diff order, then all of the
  next, and when it returns without error the requests made are exactly the media URLs
  of these episodes in this order; on decline it returns without error, the file system
  is as before and no request was made.
\<close>

theorem updatePods_downloads_in_order:
  assumes "collect_loop env pods [] w = Inr newEps" and "pods \<noteq> []"
  shows "distinct (range_order env 3 (map fst newEps)) \<and>
     set (range_order env 3 (map fst newEps)) = set pods \<and>
     (\<forall>p \<in> set pods. NewEpisodes env (deref env p) w = Inr (eps_of newEps p)) \<and>
     (waitApproval env (summary_msg env newEps) \<longrightarrow>
        updatePods env pods w =
          run_downloads env (batch_order env newEps (range_order env 3 (map fst newEps)))
            (announced env newEps w) \<and>
        (fst (updatePods env pods w) = None \<longrightarrow>
           requests (trace (snd (updatePods env pods w))) =
             requests (trace w) @
             map (\<lambda>x. media_url env (fst x))
               (batch_order env newEps (range_order env 3 (map fst newEps))))) \<and>
     (\<not> waitApproval env (summary_msg env newEps) \<longrightarrow>
        fst (updatePods env pods w) = None \<and>
        files (snd (updatePods env pods w)) = files w \<and>
        dirs (snd (updatePods env pods w)) = dirs w \<and>
        requests (trace (snd (updatePods env pods w))) = requests (trace w))"
proof -
  let ?order = "range_order env 3 (map fst newEps)"
  let ?batch = "batch_order env newEps ?order"
  note keys = collect_loop_keys [OF assms(1)]
  have 1: "distinct ?order" using keys(2) by (simp add: range_order_distinct)
  have 2: "set ?order = set pods" using keys(1) by (simp add: range_order_set)
  have 3: "\<forall>p \<in> set pods. NewEpisodes env (deref env p) w = Inr (eps_of newEps p)"
    using collect_loop_eps_of [OF assms(1)] by blast
  note u = updatePods_Inr [OF assms]
  have 4: "waitApproval env (summary_msg env newEps) \<longrightarrow>
        updatePods env pods w = run_downloads env ?batch (announced env newEps w) \<and>
        (fst (updatePods env pods w) = None \<longrightarrow>
           requests (trace (snd (updatePods env pods w))) =
             requests (trace w) @ map (\<lambda>x. media_url env (fst x)) ?batch)"
  proof
    assume yes: "waitApproval env (summary_msg env newEps)"
    with u have eq: "updatePods env pods w = run_downloads env ?batch (announced env newEps w)"
      by simp
    have "fst (updatePods env pods w) = None \<longrightarrow>
           requests (trace (snd (updatePods env pods w))) =
             requests (trace w) @ map (\<lambda>x. media_url env (fst x)) ?batch"
    proof
      assume "fst (updatePods env pods w) = None"
      then have "run_downloads env ?batch (announced env newEps w) =
          (None, snd (updatePods env pods w))"
        using eq by (metis prod.collapse)
      from run_downloads_success [OF this] show
        "requests (trace (snd (updatePods env pods w))) =
             requests (trace w) @ map (\<lambda>x. media_url env (fst x)) ?batch"
        by simp
    qed
    with eq show "updatePods env pods w = run_downloads env ?batch (announced env newEps w) \<and>
        (fst (updatePods env pods w) = None \<longrightarrow>
           requests (trace (snd (updatePods env pods w))) =
             requests (trace w) @ map (\<lambda>x. media_url env (fst x)) ?batch)"
      by blast
  qed
  have 5: "\<not> waitApproval env (summary_msg env newEps) \<longrightarrow>
        fst (updatePods env pods w) = None \<and>
        files (snd (updatePods env pods w)) = files w \<and>
        dirs (snd (updatePods env pods w)) = dirs w \<and>
        requests (trace (snd (updatePods env pods w))) = requests (trace w)"
    using u by simp
  from 1 2 3 4 5 show ?thesis by blast
qed

theorem updatePods_downloads_in_order_witness:
  "updatePods env0 [0] w0 =
     run_downloads env0 [(ep2, ''/pods/show''), (ep3, ''/pods/show'')]
       (announced env0 [(0, [ep2, ep3])] w0) \<and>
   requests (trace (snd (updatePods env0 [0] w0))) =
     [''http://example.org/media/ep2.mp3'', ''http://example.org/media/ep3.mp3''] \<and>
   fst (updatePods env_no [0] w0) = None \<and>
   files (snd (updatePods env_no [0] w0)) = files w0 \<and>
   requests (trace (snd (updatePods env_no [0] w0))) = []"
proof -
  let ?m = "[(0, [ep2, ep3])] :: epmap"
  have ne: "[0::nat] \<noteq> []" by simp
  have yes: "waitApproval env0 (summary_msg env0 ?m)" by (simp add: env0_def)
  have b: "batch_order env0 ?m (range_order env0 3 (map fst ?m)) =
      [(ep2, ''/pods/show''), (ep3, ''/pods/show'')]" by code_simp
  have ok: "fst (updatePods env0 [0] w0) = None" by code_simp
  note t = updatePods_downloads_in_order [OF collect_w0 ne]
  note ta = t [THEN conjunct2, THEN conjunct2, THEN conjunct2, THEN conjunct1, THEN mp, OF yes]
  have 1: "updatePods env0 [0] w0 =
     run_downloads env0 [(ep2, ''/pods/show''), (ep3, ''/pods/show'')] (announced env0 ?m w0)"
    using ta [THEN conjunct1] by (simp only: b)
  have r: "requests (trace w0) @
      map (\<lambda>x. media_url env0 (fst x)) [(ep2, ''/pods/show''), (ep3, ''/pods/show'')] =
      [''http://example.org/media/ep2.mp3'', ''http://example.org/media/ep3.mp3'']"
    by code_simp
  have 2: "requests (trace (snd (updatePods env0 [0] w0))) =
     [''http://example.org/media/ep2.mp3'', ''http://example.org/media/ep3.mp3'']"
    using ta [THEN conjunct2, THEN mp, OF ok] by (simp only: b r)
  have c': "collect_loop env_no [0] [] w0 = Inr ?m" by code_simp
  have no: "\<not> waitApproval env_no (summary_msg env_no ?m)" by (simp add: env_no_def)
  note d = updatePods_downloads_in_order [OF c' ne, THEN conjunct2, THEN conjunct2,
      THEN conjunct2, THEN conjunct2, THEN mp, OF no]
  have e: "requests (trace w0) = []" by code_simp
  from d have 3: "fst (updatePods env_no [0] w0) = None"
    and 4: "files (snd (updatePods env_no [0] w0)) = files w0"
    and 5: "requests (trace (snd (updatePods env_no [0] w0))) = []"
    by (simp_all only: e)
  from 1 2 3 4 5 show ?thesis by (intro conjI)
qed

text \<open>
  C8. When the diff of a podcast fails, \<^verbatim>\<open>updatePods\<close> returns that error and the world
  is as before, whatever podcasts follow. When a download fails, \<^verbatim>\<open>updatePods\<close> returns
  that error in the world the failed download left, whatever episodes follow: no file
  that existed is removed, the files of the downloads that succeeded before are on disk,
  and nothing is requested after the failed download.
\<close>

theorem updatePods_fail_fast:
  "((\<forall>q \<in> set ps. \<exists>eps. NewEpisodes env (deref env q) w = Inr eps) \<and>
    NewEpisodes env (deref env p) w = Inl err \<longrightarrow>
      updatePods env (ps @ p # rest) w = (Some err, w)) \<and>
   (collect_loop env pods [] w = Inr newEps \<and> pods \<noteq> [] \<and>
    waitApproval env (summary_msg env newEps) \<and>
    batch_order env newEps (range_order env 3 (map fst newEps)) = finished @ (e, dir) # later \<and>
    run_downloads env finished (announced env newEps w) = (None, w1) \<and>
    download env e dir w1 = (Some err', e', w2) \<longrightarrow>
      updatePods env pods w = (Some err', w2) \<and>
      dirs w2 = dirs w \<and>
      on_disk w \<subseteq> on_disk w1 \<and> on_disk w1 \<subseteq> on_disk w2 \<and>
      (\<forall>x \<in> set finished. \<exists>n. target env (fst x) (snd x) = Some n \<and> n \<in> on_disk w2) \<and>
      requests (trace w2) =
        requests (trace w) @ map (\<lambda>x. media_url env (fst x)) finished @
        (if target env e dir = None then [] else [media_url env e]))"
proof (intro conjI impI)
  assume "(\<forall>q \<in> set ps. \<exists>eps. NewEpisodes env (deref env q) w = Inr eps) \<and>
    NewEpisodes env (deref env p) w = Inl err"
  then have "collect_loop env (ps @ p # rest) [] w = Inl err"
    by (simp add: collect_loop_Inl)
  then show "updatePods env (ps @ p # rest) w = (Some err, w)"
    by (rule updatePods_Inl)
next
  assume a: "collect_loop env pods [] w = Inr newEps \<and> pods \<noteq> [] \<and>
    waitApproval env (summary_msg env newEps) \<and>
    batch_order env newEps (range_order env 3 (map fst newEps)) = finished @ (e, dir) # later \<and>
    run_downloads env finished (announced env newEps w) = (None, w1) \<and>
    download env e dir w1 = (Some err', e', w2)"
  then have c: "collect_loop env pods [] w = Inr newEps" and ne: "pods \<noteq> []"
    and yes: "waitApproval env (summary_msg env newEps)"
    and b: "batch_order env newEps (range_order env 3 (map fst newEps)) = finished @ (e, dir) # later"
    and f: "run_downloads env finished (announced env newEps w) = (None, w1)"
    and d: "download env e dir w1 = (Some err', e', w2)"
    by simp_all
  show u: "updatePods env pods w = (Some err', w2)"
    using updatePods_Inr [OF c ne] yes b f d by (simp add: run_downloads_append)
  note ff = run_downloads_frame [OF f] and fs = run_downloads_success [OF f]
  note df = download_frame [OF d]
  show "dirs w2 = dirs w" using ff df by simp
  show "on_disk w \<subseteq> on_disk w1" using ff by (simp add: on_disk_def)
  show "on_disk w1 \<subseteq> on_disk w2" using df by simp
  show "\<forall>x \<in> set finished. \<exists>n. target env (fst x) (snd x) = Some n \<and> n \<in> on_disk w2"
    using fs df(2) by blast
  have "requests (trace w2) = requests (trace w1) @
      (if target env e dir = None then [] else [media_url env e])"
    using d
    by (auto simp: download_def http_Get_def Let_def media_url_def target_def
        split: sum.splits prod.splits option.splits dest!: os_Create_Inr)
  then show "requests (trace w2) =
        requests (trace w) @ map (\<lambda>x. media_url env (fst x)) finished @
        (if target env e dir = None then [] else [media_url env e])"
    using fs by simp
qed

theorem updatePods_fail_fast_witness:
  "updatePods env0 ([0] @ 1 # [0]) w0 = (Some (OsErr ''no such file or directory''), w0) \<and>
   updatePods env0 [0] w_x =
     (Some (HttpErr ''connection refused''),
      emit (HttpGet ''http://example.org/down/b.mp3'')
        (snd (run_downloads env0 [(epA, ''/pods/show'')] (announced env0 [(0, [epA, epB, epC])] w_x)))) \<and>
   (True, [''pods'', ''show'', ''A.mp3'']) \<in> on_disk (snd (updatePods env0 [0] w_x))"
proof -
  let ?m = "[(0, [epA, epB, epC])] :: epmap"
  let ?w1 = "snd (run_downloads env0 [(epA, ''/pods/show'')] (announced env0 ?m w_x))"
  let ?w2 = "emit (HttpGet ''http://example.org/down/b.mp3'') ?w1"
  have a1: "\<forall>q \<in> set [0::nat]. \<exists>eps. NewEpisodes env0 (deref env0 q) w0 = Inr eps"
  proof -
    have "NewEpisodes env0 (deref env0 0) w0 = Inr [ep2, ep3]" by code_simp
    then show ?thesis by simp
  qed
  have a2: "NewEpisodes env0 (deref env0 1) w0 = Inl (OsErr ''no such file or directory'')"
    by code_simp
  have 1: "updatePods env0 ([0] @ 1 # [0]) w0 = (Some (OsErr ''no such file or directory''), w0)"
    using updatePods_fail_fast [THEN conjunct1, THEN mp, OF conjI [OF a1 a2]] .
  have ne: "[0::nat] \<noteq> []" by simp
  have yes: "waitApproval env0 (summary_msg env0 ?m)" by (simp add: env0_def)
  have b: "batch_order env0 ?m (range_order env0 3 (map fst ?m)) =
      [(epA, ''/pods/show'')] @ (epB, ''/pods/show'') # [(epC, ''/pods/show'')]" by code_simp
  have f: "run_downloads env0 [(epA, ''/pods/show'')] (announced env0 ?m w_x) = (None, ?w1)"
    by code_simp
  have d: "download env0 epB ''/pods/show'' ?w1 = (Some (HttpErr ''connection refused''), epB, ?w2)"
    by code_simp
  note t = updatePods_fail_fast [THEN conjunct2, THEN mp,
      OF conjI [OF collect_wx conjI [OF ne conjI [OF yes conjI [OF b conjI [OF f d]]]]]]
  have 2: "updatePods env0 [0] w_x = (Some (HttpErr ''connection refused''), ?w2)"
    using t by (rule conjunct1)
  have tg: "target env0 epA ''/pods/show'' = Some (True, [''pods'', ''show'', ''A.mp3''])"
    by code_simp
  from t have "\<forall>x \<in> set [(epA, ''/pods/show'')]. \<exists>n. target env0 (fst x) (snd x) = Some n \<and> n \<in> on_disk ?w2"
    by (elim conjE)
  then have "(True, [''pods'', ''show'', ''A.mp3'']) \<in> on_disk ?w2"
    by (simp add: tg)
  then have 3: "(True, [''pods'', ''show'', ''A.mp3'']) \<in> on_disk (snd (updatePods env0 [0] w_x))"
    by (simp only: 2 snd_conv)
  from 1 2 3 show ?thesis by (intro conjI)
qed

section \<open>The command line\<close>

lemma RunE_loop_all:
  assumes "ReservedPodName \<notin> set pre"
    and "\<forall>i < length pre. \<exists>p. Get env (k + i) (pre ! i) = Inr p"
  shows "RunE_loop env (pre @ ReservedPodName # post) pods k w =
     (case List env (k + length pre) of
        Inl err \<Rightarrow> (Some err, w)
      | Inr all \<Rightarrow> updatePods env all w)"
  using assms
proof (induction pre arbitrary: pods k)
  case Nil
  then show ?case by simp
next
  case (Cons a pre)
  from Cons.prems(2) [rule_format, of 0] obtain p where p: "Get env k a = Inr p" by auto
  have "\<forall>i < length pre. \<exists>p. Get env (Suc k + i) (pre ! i) = Inr p"
  proof (intro allI impI)
    fix i assume "i < length pre"
    then have "Suc i < length (a # pre)" by simp
    from Cons.prems(2) [rule_format, OF this] show "\<exists>p. Get env (Suc k + i) (pre ! i) = Inr p"
      by simp
  qed
  with Cons.IH [of "Suc k" "pods @ [p]"] Cons.prems(1) p show ?case by auto
qed

lemma RunE_loop_lookup_fails:
  assumes "ReservedPodName \<notin> set pre"
    and "\<forall>i < length pre. \<exists>p. Get env (k + i) (pre ! i) = Inr p"
    and "a \<noteq> ReservedPodName" and "Get env (k + length pre) a = Inl err"
  shows "RunE_loop env (pre @ a # post) pods k w = (Some err, w)"
  using assms
proof (induction pre arbitrary: pods k)
  case Nil
  then show ?case by simp
next
  case (Cons b pre)
  from Cons.prems(2) [rule_format, of 0] obtain p where p: "Get env k b = Inr p" by auto
  have "\<forall>i < length pre. \<exists>p. Get env (Suc k + i) (pre ! i) = Inr p"
  proof (intro allI impI)
    fix i assume "i < length pre"
    then have "Suc i < length (b # pre)" by simp
    from Cons.prems(2) [rule_format, OF this] show "\<exists>p. Get env (Suc k + i) (pre ! i) = Inr p"
      by simp
  qed
  with Cons.IH [of "Suc k" "pods @ [p]"] Cons.prems p show ?case by auto
qed

text \<open>
  An unknown name before \<^verbatim>\<open>all\<close> is not ignored: the command fails with
  \<^verbatim>\<open>ErrNoEntry\<close> and nothing is updated.
\<close>

theorem updateCmd_all_counterexample:
  "updateCmd env0 [''nosuch'', ''all''] w0 = (Some ErrNoEntry, w0) \<and>
   updateCmd env0 [''all''] w0 \<noteq> updateCmd env0 [''nosuch'', ''all''] w0"
  by code_simp

text \<open>
  C10 (amended). When every argument before the first \<^verbatim>\<open>all\<close> names a managed podcast,
  the batch is the registry's list (or the command fails with the error of reading it):
  the podcasts looked up before are dropped and the arguments after \<^verbatim>\<open>all\<close> are not
  read. When the lookup of an argument fails before any \<^verbatim>\<open>all\<close> is reached, the command
  returns that error and the world is as before.
\<close>

theorem updateCmd_all:
  "(ReservedPodName \<notin> set pre \<and> (\<forall>i < length pre. \<exists>p. Get env i (pre ! i) = Inr p) \<longrightarrow>
      updateCmd env (pre @ ReservedPodName # post) w =
        (case List env (length pre) of
           Inl err \<Rightarrow> (Some err, w)
         | Inr all \<Rightarrow> updatePods env all w)) \<and>
   (ReservedPodName \<notin> set pre \<and> (\<forall>i < length pre. \<exists>p. Get env i (pre ! i) = Inr p) \<and>
    a \<noteq> ReservedPodName \<and> Get env (length pre) a = Inl err \<longrightarrow>
      updateCmd env (pre @ a # post) w = (Some err, w))"
  using RunE_loop_all [of pre env 0 post "[]" w] RunE_loop_lookup_fails [of pre env 0 a err post "[]" w]
  by (simp add: updateCmd_def)

theorem updateCmd_all_witness:
  "updateCmd env0 ([''show''] @ ReservedPodName # [''nosuch'']) w0 = updatePods env0 [1, 0] w0 \<and>
   updateCmd env0 ([] @ ''nosuch'' # [ReservedPodName]) w0 = (Some ErrNoEntry, w0)"
proof -
  have g: "Get env0 0 ''show'' = Inr 0" by code_simp
  have a: "ReservedPodName \<notin> set [''show''] \<and>
      (\<forall>i < length [''show'']. \<exists>p. Get env0 i ([''show''] ! i) = Inr p)"
    using g by (simp add: ReservedPodName_def)
  have l: "List env0 (length [''show'']) = Inr [1, 0]" by code_simp
  have 1: "updateCmd env0 ([''show''] @ ReservedPodName # [''nosuch'']) w0 = updatePods env0 [1, 0] w0"
    using updateCmd_all [THEN conjunct1, THEN mp, OF a, of "[''nosuch'']" w0]
    by (simp only: l sum.case)
  have b: "ReservedPodName \<notin> set [] \<and>
      (\<forall>i < length ([] :: string list). \<exists>p. Get env0 i (([] :: string list) ! i) = Inr p) \<and>
      ''nosuch'' \<noteq> ReservedPodName \<and> Get env0 (length ([] :: string list)) ''nosuch'' = Inl ErrNoEntry"
  proof -
    have "Get env0 0 ''nosuch'' = Inl ErrNoEntry" by code_simp
    then show ?thesis by (simp add: ReservedPodName_def)
  qed
  note 2 = updateCmd_all [THEN conjunct2, THEN mp, OF b, of "[ReservedPodName]" w0]
  from 1 2 show ?thesis by (intro conjI)
qed

end
